theory Spec2Isabelle
  imports
    Main
    "HOL-Library.Char_ord"
    "HOL-Library.List_Lexorder"
    "HOL-Library.Product_Lexorder"
    "HOL-Library.Sublist"
    "HOL-Library.FSet"
    "HOL-Library.Multiset"
begin

section \<open>Strings, paths and the filesystem\<close>

text \<open>
  A \<open>pathlib.Path\<close> is the list of its components; \<open>p / n\<close> appends one component and
  \<open>Path.name\<close> is the last component (the empty string for a path without components).
  Strings are lists of 8-bit characters, read as the code points 0 to 255. On these
  \<open>str.lower\<close> maps the letters A to Z and the code points 192 to 222 other than 215
  to the code point 32 above and leaves the others as they are, and Python's
  comparison of strings by code point is the lexicographic order on character lists.
\<close>

type_synonym path = "string list"

definition child :: "path \<Rightarrow> string \<Rightarrow> path" where
  "child p n = p @ [n]"

definition name :: "path \<Rightarrow> string" where
  "name p = (if p = [] then [] else last p)"

definition lower_char :: "char \<Rightarrow> char" where
  "lower_char c =
     (case map_of
        (zip ''ABCDEFGHIJKLMNOPQRSTUVWXYZ'' ''abcdefghijklmnopqrstuvwxyz'' @
         zip [CHR 0xC0, CHR 0xC1, CHR 0xC2, CHR 0xC3, CHR 0xC4, CHR 0xC5,
              CHR 0xC6, CHR 0xC7, CHR 0xC8, CHR 0xC9, CHR 0xCA, CHR 0xCB,
              CHR 0xCC, CHR 0xCD, CHR 0xCE, CHR 0xCF, CHR 0xD0, CHR 0xD1,
              CHR 0xD2, CHR 0xD3, CHR 0xD4, CHR 0xD5, CHR 0xD6, CHR 0xD8,
              CHR 0xD9, CHR 0xDA, CHR 0xDB, CHR 0xDC, CHR 0xDD, CHR 0xDE]
             [CHR 0xE0, CHR 0xE1, CHR 0xE2, CHR 0xE3, CHR 0xE4, CHR 0xE5,
              CHR 0xE6, CHR 0xE7, CHR 0xE8, CHR 0xE9, CHR 0xEA, CHR 0xEB,
              CHR 0xEC, CHR 0xED, CHR 0xEE, CHR 0xEF, CHR 0xF0, CHR 0xF1,
              CHR 0xF2, CHR 0xF3, CHR 0xF4, CHR 0xF5, CHR 0xF6, CHR 0xF8,
              CHR 0xF9, CHR 0xFA, CHR 0xFB, CHR 0xFC, CHR 0xFD, CHR 0xFE]) c of
        Some d \<Rightarrow> d
      | None \<Rightarrow> c)"

definition lower :: "string \<Rightarrow> string" where
  "lower s = map lower_char s"

text \<open>\<open>s.startswith(t)\<close> is \<^const>\<open>prefix\<close> \<open>t s\<close>. \<open>q in s\<close> on strings is the substring test.\<close>

fun contains :: "string \<Rightarrow> string \<Rightarrow> bool" where
  "contains q [] = (q = [])"
| "contains q (c # s) = (prefix q (c # s) \<or> contains q s)"

text \<open>The characters \<open>str.strip()\<close> removes, among the 8-bit characters.\<close>

definition is_space :: "char \<Rightarrow> bool" where
  "is_space c = (of_char c \<in> {9, 10, 11, 12, 13, 28, 29, 30, 31, 32, 133, 160 :: nat})"

definition strip :: "string \<Rightarrow> string" where
  "strip s = rev (dropWhile is_space (rev (dropWhile is_space s)))"

text \<open>
  \<open>Path.suffix\<close>: the part of the name from its last dot on, when that dot is neither
  the first nor the last character of the name; otherwise the empty string.
\<close>

fun rfind_dot :: "string \<Rightarrow> nat option" where
  "rfind_dot [] = None"
| "rfind_dot (c # s) =
     (case rfind_dot s of
        Some i \<Rightarrow> Some (Suc i)
      | None \<Rightarrow> if c = CHR ''.'' then Some 0 else None)"

definition suffix_of :: "path \<Rightarrow> string" where
  "suffix_of p =
     (case rfind_dot (name p) of
        None \<Rightarrow> []
      | Some i \<Rightarrow> if 0 < i \<and> Suc i < length (name p) then drop i (name p) else [])"

text \<open>
  The exceptions the filesystem calls raise. \<open>PermissionError\<close> is a subclass of
  \<open>OSError\<close>; every handler of the program reads \<open>except (PermissionError, OSError)\<close>
  and catches both.
\<close>

datatype error = PermissionError | OSError

text \<open>
  The filesystem as the program sees it: the names a directory read returns, in the
  order the operating system gives them, and the type probe \<open>Path.is_dir()\<close>.
  Either call may raise.
\<close>

record fs =
  listdir :: "path \<Rightarrow> error + string list"
  is_dir :: "path \<Rightarrow> error + bool"

definition iterdir :: "fs \<Rightarrow> path \<Rightarrow> error + path list" where
  "iterdir fsys p =
     (case listdir fsys p of Inl e \<Rightarrow> Inl e | Inr ns \<Rightarrow> Inr (map (child p) ns))"

section \<open>Sorting a listing\<close>

text \<open>
  \<open>items.sort(key=lambda x: (not x.is_dir(), x.name.lower()))\<close>: Python computes the key
  of every element first, in order (the first probe that raises ends the sort with
  that exception), then sorts stably by the keys.
\<close>

type_synonym sort_key = "bool \<times> string"

definition key_of :: "fs \<Rightarrow> path \<Rightarrow> error + sort_key" where
  "key_of fsys x =
     (case is_dir fsys x of Inl e \<Rightarrow> Inl e | Inr d \<Rightarrow> Inr (\<not> d, lower (name x)))"

fun collect :: "(error + 'a) list \<Rightarrow> error + 'a list" where
  "collect [] = Inr []"
| "collect (Inl e # rs) = Inl e"
| "collect (Inr x # rs) =
     (case collect rs of Inl e \<Rightarrow> Inl e | Inr xs \<Rightarrow> Inr (x # xs))"

definition sort_items :: "fs \<Rightarrow> path list \<Rightarrow> error + path list" where
  "sort_items fsys items =
     (case collect (map (key_of fsys) items) of
        Inl e \<Rightarrow> Inl e
      | Inr ks \<Rightarrow> Inr (map snd (sort_key fst (zip ks items))))"

section \<open>The file list panel\<close>

record file_list =
  current_path :: path
  files :: "path list"
  selected_idx :: int
  show_hidden :: bool

definition hidden :: "path \<Rightarrow> bool" where
  "hidden i = prefix ''.'' (name i)"

text \<open>The body of the \<open>try\<close> block of \<open>load_directory\<close>.\<close>

definition load_items :: "fs \<Rightarrow> bool \<Rightarrow> path \<Rightarrow> error + path list" where
  "load_items fsys show_hid p =
     (case iterdir fsys p of
        Inl e \<Rightarrow> Inl e
      | Inr items \<Rightarrow>
          (case sort_items fsys (if \<not> show_hid then filter (\<lambda>i. \<not> hidden i) items else items) of
             Inl e \<Rightarrow> Inl e
           | Inr sorted_items \<Rightarrow> Inr (take 300 sorted_items)))"

definition load_directory :: "fs \<Rightarrow> file_list \<Rightarrow> path \<Rightarrow> file_list" where
  "load_directory fsys fl p =
     (let fl1 = fl\<lparr>current_path := p, selected_idx := 0\<rparr> in
      case load_items fsys (show_hidden fl1) p of
        Inl e \<Rightarrow> fl1\<lparr>files := []\<rparr>
      | Inr xs \<Rightarrow> fl1\<lparr>files := xs\<rparr>)"

definition toggle_hidden :: "fs \<Rightarrow> file_list \<Rightarrow> file_list" where
  "toggle_hidden fsys fl =
     (let fl1 = fl\<lparr>show_hidden := \<not> show_hidden fl\<rparr> in
      load_directory fsys fl1 (current_path fl1))"

section \<open>Filtering the current directory\<close>

text \<open>The dictionary \<open>type_filters\<close> of \<open>apply_filter\<close>; its keys are distinct.\<close>

definition type_filters :: "(string \<times> string list) list" where
  "type_filters =
     [(''img'', [''.png'', ''.jpg'', ''.jpeg'', ''.gif'', ''.bmp'', ''.webp'', ''.ico'', ''.svg'']),
      (''image'', [''.png'', ''.jpg'', ''.jpeg'', ''.gif'', ''.bmp'', ''.webp'', ''.ico'', ''.svg'']),
      (''vid'', [''.mp4'', ''.avi'', ''.mkv'', ''.mov'', ''.wmv'', ''.flv'', ''.webm'']),
      (''video'', [''.mp4'', ''.avi'', ''.mkv'', ''.mov'', ''.wmv'', ''.flv'', ''.webm'']),
      (''audio'', [''.mp3'', ''.wav'', ''.flac'', ''.ogg'', ''.m4a'', ''.aac'']),
      (''doc'', [''.pdf'', ''.doc'', ''.docx'', ''.txt'', ''.md'']),
      (''code'', [''.py'', ''.js'', ''.cpp'', ''.c'', ''.java'', ''.rs'', ''.go'', ''.rb'', ''.php'']),
      (''archive'', [''.zip'', ''.tar'', ''.gz'', ''.bz2'', ''.7z'', ''.rar''])]"

text \<open>The three branches that choose the entries to keep.\<close>

definition filter_pred :: "string \<Rightarrow> path \<Rightarrow> bool" where
  "filter_pred filter_lower i =
     (case map_of type_filters filter_lower of
        Some extensions \<Rightarrow> lower (suffix_of i) \<in> set extensions
      | None \<Rightarrow>
          if prefix ''.'' filter_lower then lower (suffix_of i) = filter_lower
          else contains filter_lower (lower (name i)))"

text \<open>
  The body of the \<open>try\<close> block of \<open>apply_filter\<close>, up to the sort: it reads the directory
  again, keeps the matching entries and sorts them.
\<close>

definition filter_items :: "fs \<Rightarrow> path \<Rightarrow> string \<Rightarrow> error + path list" where
  "filter_items fsys p filter_lower =
     (case iterdir fsys p of
        Inl e \<Rightarrow> Inl e
      | Inr items \<Rightarrow> sort_items fsys (filter (filter_pred filter_lower) items))"

definition apply_filter :: "fs \<Rightarrow> file_list \<Rightarrow> string \<Rightarrow> file_list" where
  "apply_filter fsys fl filter_text =
     (let p = current_path fl; filter_lower = strip (lower filter_text) in
      if filter_lower = [] then load_directory fsys fl p
      else
        case filter_items fsys p filter_lower of
          Inl e \<Rightarrow> fl
        | Inr filtered \<Rightarrow> fl\<lparr>files := take 300 filtered, selected_idx := 0\<rparr>)"

section \<open>Breadth-first search\<close>

text \<open>
  The local variables of \<open>bfs_search\<close>: the queue (a \<open>deque\<close>, enqueued at the back and
  dequeued at the front), the results and the visited set. \<open>dir_reads\<close> is not a
  variable of the program: it counts the calls of \<open>iterdir\<close>, so that the number of
  directory reads can be stated.
\<close>

record search_state =
  queue :: "path list"
  results :: "path list"
  visited :: "path fset"
  dir_reads :: nat

text \<open>
  The \<open>for item in current.iterdir()\<close> loop. A type probe that raises leaves the loop
  for the handler, which continues the outer loop; what was appended stays appended.
\<close>

fun scan_children :: "fs \<Rightarrow> string \<Rightarrow> path list \<Rightarrow> search_state \<Rightarrow> search_state" where
  "scan_children fsys query [] s = s"
| "scan_children fsys query (item # items) s =
     (let s1 = (if contains query (lower (name item))
                then s\<lparr>results := results s @ [item]\<rparr> else s) in
      case is_dir fsys item of
        Inl e \<Rightarrow> s1
      | Inr d \<Rightarrow>
          scan_children fsys query items (if d then s1\<lparr>queue := queue s1 @ [item]\<rparr> else s1))"

text \<open>The \<open>try\<close> block of the outer loop, with its handler.\<close>

definition expand :: "fs \<Rightarrow> string \<Rightarrow> path \<Rightarrow> search_state \<Rightarrow> search_state" where
  "expand fsys query current s =
     (case is_dir fsys current of
        Inl e \<Rightarrow> s
      | Inr d \<Rightarrow>
          if d then
            (let s1 = s\<lparr>dir_reads := Suc (dir_reads s)\<rparr> in
             case iterdir fsys current of
               Inl e \<Rightarrow> s1
             | Inr items \<Rightarrow> scan_children fsys query items s1)
          else s)"

text \<open>
  The \<open>while\<close> loop. The guard makes the queue non-empty where it is dequeued, so the
  first case of the dequeue is never taken.
\<close>

function bfs_while :: "fs \<Rightarrow> string \<Rightarrow> int \<Rightarrow> nat \<Rightarrow> search_state \<Rightarrow> search_state" where
  "bfs_while fsys query max_results max_dirs s =
     (if queue s \<noteq> [] \<and> int (length (results s)) < max_results \<and> fcard (visited s) < max_dirs
      then
        (case queue s of
           [] \<Rightarrow> s
         | current # rest \<Rightarrow>
             if current |\<in>| visited s
             then bfs_while fsys query max_results max_dirs (s\<lparr>queue := rest\<rparr>)
             else bfs_while fsys query max_results max_dirs
                    (expand fsys query current
                       (s\<lparr>queue := rest, visited := finsert current (visited s)\<rparr>)))
      else s)"
  by pat_completeness auto
termination
proof (relation "measures [\<lambda>(fsys, query, max_results, max_dirs, s). max_dirs - fcard (visited s),
                           \<lambda>(fsys, query, max_results, max_dirs, s). length (queue s)]",
       goal_cases)
  case 1
  show ?case by simp
next
  case (2 fsys query max_results max_dirs s current rest)
  then show ?case by simp
next
  case (3 fsys query max_results max_dirs s current rest)
  have scan: "visited (scan_children fsys query items t) = visited t" for items t
    by (induction items arbitrary: t) (auto simp: Let_def split: sum.splits)
  have "visited (expand fsys query current t) = visited t" for t
    by (simp add: expand_def Let_def scan split: sum.splits)
  with 3 show ?case by (auto simp: fcard_finsert_disjoint)
qed

declare bfs_while.simps [simp del]

definition bfs_run :: "fs \<Rightarrow> path \<Rightarrow> string \<Rightarrow> int \<Rightarrow> search_state" where
  "bfs_run fsys root query max_results =
     bfs_while fsys query max_results 300
       \<lparr>queue = [root], results = [], visited = {||}, dir_reads = 0\<rparr>"

definition bfs_search :: "fs \<Rightarrow> path \<Rightarrow> string \<Rightarrow> int \<Rightarrow> path list" where
  "bfs_search fsys root query max_results = results (bfs_run fsys root query max_results)"

section \<open>The application: search input and its timers\<close>

text \<open>
  What the search panel shows after \<open>show_results\<close>: the message for no match, or the
  count of the results and the first 150 of them.
\<close>

datatype panel = Blank | NoMatches string | Found nat "path list"

definition show_results :: "path list \<Rightarrow> string \<Rightarrow> panel" where
  "show_results rs query =
     (if rs = [] then NoMatches query else Found (length rs) (take 150 rs))"

text \<open>
  The state of the application: the fields of \<open>FileExplorer\<close>, the two panels, and the
  timers that \<open>set_timer\<close> has started and that have not fired yet. Each timer holds
  the input value of its callback \<open>lambda: self.do_search(event.value)\<close>. All timers
  have the same delay of 0.4 seconds, so they fire in the order they were started.
\<close>

record app =
  nav_stack :: "path list"
  search_active :: bool
  filter_active :: bool
  current_filter :: string
  flist :: file_list
  search_panel :: panel
  timers :: "string list"

definition app_init :: "file_list \<Rightarrow> app" where
  "app_init fl =
     \<lparr>nav_stack = [], search_active = False, filter_active = False, current_filter = [],
      flist = fl, search_panel = Blank, timers = []\<rparr>"

definition action_search_mode :: "app \<Rightarrow> app" where
  "action_search_mode a = a\<lparr>search_active := True, filter_active := False\<rparr>"

text \<open>
  \<open>action_normal_mode\<close> also empties the search box; the input event that follows finds
  both modes off and does nothing.
\<close>

definition action_normal_mode :: "fs \<Rightarrow> app \<Rightarrow> app" where
  "action_normal_mode fsys a =
     a\<lparr>search_active := False, filter_active := False, current_filter := [],
       flist := load_directory fsys (flist a) (current_path (flist a))\<rparr>"

definition do_search :: "fs \<Rightarrow> app \<Rightarrow> string \<Rightarrow> app" where
  "do_search fsys a query =
     (if \<not> search_active a then a
      else a\<lparr>search_panel :=
               show_results (bfs_search fsys (current_path (flist a)) (lower query) 150) query\<rparr>)"

definition on_input_changed :: "fs \<Rightarrow> app \<Rightarrow> string \<Rightarrow> app" where
  "on_input_changed fsys a v =
     (if search_active a \<and> 2 \<le> length v then a\<lparr>timers := timers a @ [v]\<rparr>
      else if filter_active a then a\<lparr>flist := apply_filter fsys (flist a) v\<rparr>
      else a)"

text \<open>The oldest pending timer fires and runs its callback.\<close>

definition timer_fires :: "fs \<Rightarrow> app \<Rightarrow> app" where
  "timer_fires fsys a =
     (case timers a of
        [] \<Rightarrow> a
      | query # rest \<Rightarrow> do_search fsys (a\<lparr>timers := rest\<rparr>) query)"

fun run_timers :: "fs \<Rightarrow> nat \<Rightarrow> app \<Rightarrow> app" where
  "run_timers fsys 0 a = a"
| "run_timers fsys (Suc n) a = run_timers fsys n (timer_fires fsys a)"

section \<open>Notions used to state the properties\<close>

text \<open>
  The sort key of an entry whose type probe succeeds, and the condition that the type
  probes of a list of entries all succeed. They describe the successful runs of
  \<open>sort_items\<close> and are used in the proofs.
\<close>

definition the_key :: "fs \<Rightarrow> path \<Rightarrow> sort_key" where
  "the_key fsys x =
     (case is_dir fsys x of
        Inl e \<Rightarrow> (False, lower (name x))
      | Inr d \<Rightarrow> (\<not> d, lower (name x)))"

definition probes_ok :: "fs \<Rightarrow> path list \<Rightarrow> bool" where
  "probes_ok fsys items = (\<forall>x\<in>set items. \<exists>d. is_dir fsys x = Inr d)"

text \<open>
  The order of a listing, as the two rules that define it: a directory never comes
  after a file, and two entries of the same kind come in the order of their
  lowercased names.
\<close>

definition listing_le :: "fs \<Rightarrow> path \<Rightarrow> path \<Rightarrow> bool" where
  "listing_le fsys a b =
     ((is_dir fsys b = Inr True \<longrightarrow> is_dir fsys a = Inr True) \<and>
      (is_dir fsys a = is_dir fsys b \<longrightarrow> lower (name a) \<le> lower (name b)))"

text \<open>The entries that remain after the hidden-file test of \<open>load_directory\<close>.\<close>

definition visible :: "bool \<Rightarrow> path list \<Rightarrow> path list" where
  "visible show_hid items = (if \<not> show_hid then filter (\<lambda>i. \<not> hidden i) items else items)"

text \<open>Every queued path is at or below the root, every result strictly below it.\<close>

definition below_root :: "path \<Rightarrow> search_state \<Rightarrow> bool" where
  "below_root root s =
     ((\<forall>p\<in>set (queue s). prefix root p) \<and> (\<forall>p\<in>set (results s). strict_prefix root p))"

text \<open>
  The directories of the tree below a root: the root, when it is a directory, and
  every entry of a directory of the tree that is itself a directory. The tree is
  readable when every directory of the tree can be read and the type probe of each of
  its entries succeeds.
\<close>

inductive_set tree_dirs :: "fs \<Rightarrow> path \<Rightarrow> path set" for fsys :: fs and root :: path where
  root: "is_dir fsys root = Inr True \<Longrightarrow> root \<in> tree_dirs fsys root"
| step: "p \<in> tree_dirs fsys root \<Longrightarrow> listdir fsys p = Inr ns \<Longrightarrow> n \<in> set ns \<Longrightarrow>
         is_dir fsys (child p n) = Inr True \<Longrightarrow> child p n \<in> tree_dirs fsys root"

definition readable_tree :: "fs \<Rightarrow> path \<Rightarrow> bool" where
  "readable_tree fsys root =
     (\<forall>p\<in>tree_dirs fsys root.
        \<exists>ns. listdir fsys p = Inr ns \<and> (\<forall>n\<in>set ns. \<exists>d. is_dir fsys (child p n) = Inr d))"

text \<open>
  The root is visited or queued, and so is every subdirectory of every visited
  directory of the tree.
\<close>

definition frontier_closed :: "fs \<Rightarrow> path \<Rightarrow> search_state \<Rightarrow> bool" where
  "frontier_closed fsys root s =
     ((root |\<in>| visited s \<or> root \<in> set (queue s)) \<and>
      (\<forall>p ns n. p |\<in>| visited s \<longrightarrow> p \<in> tree_dirs fsys root \<longrightarrow> listdir fsys p = Inr ns \<longrightarrow>
         n \<in> set ns \<longrightarrow> is_dir fsys (child p n) = Inr True \<longrightarrow>
         child p n |\<in>| visited s \<or> child p n \<in> set (queue s)))"

text \<open>A result was listed in some directory and its lowercased name contains the query.\<close>

definition listed_match :: "fs \<Rightarrow> string \<Rightarrow> path \<Rightarrow> bool" where
  "listed_match fsys query r =
     (\<exists>cur ns n. listdir fsys cur = Inr ns \<and> n \<in> set ns \<and> r = child cur n \<and>
        contains query (lower n))"

section \<open>Example filesystems\<close>

text \<open>
  A home directory with three files, the subdirectories \<open>src\<close> and \<open>.git\<close>, and
  the subdirectory \<open>locked\<close>, whose read is refused.
\<close>

definition fs_home :: fs where
  "fs_home =
     \<lparr>listdir = (\<lambda>p.
         if p = [''home''] then Inr [''b.txt'', ''.git'', ''Zed'', ''a.PNG'', ''src'', ''locked'']
         else if p = [''home'', ''src''] \<or> p = [''home'', ''.git''] then Inr []
         else if p = [''home'', ''locked''] then Inl PermissionError
         else Inl OSError),
       is_dir = (\<lambda>p. Inr (p = [''home''] \<or> p = [''home'', ''src''] \<or> p = [''home'', ''.git'']
                           \<or> p = [''home'', ''locked'']))\<rparr>"

definition fl_home :: file_list where
  "fl_home = \<lparr>current_path = [''home''], files = [], selected_idx = 0, show_hidden = False\<rparr>"

text \<open>
  A directory \<open>big\<close> of 301 plain files: the hidden file \<open>.z\<close> and the 300 two-letter
  names \<open>aa\<close>, \<open>ab\<close>, ..., \<open>ot\<close>.
\<close>

definition big_names :: "string list" where
  "big_names = [[a, b]. a \<leftarrow> ''abcdefghijklmno'', b \<leftarrow> ''abcdefghijklmnopqrst'']"

definition fs_big :: fs where
  "fs_big = \<lparr>listdir = (\<lambda>p. if p = [''big''] then Inr (''.z'' # big_names) else Inl OSError),
             is_dir = (\<lambda>p. Inr (p = [''big'']))\<rparr>"

definition fl_big :: file_list where
  "fl_big = \<lparr>current_path = [''big''], files = [], selected_idx = 0, show_hidden = False\<rparr>"

text \<open>
  A directory \<open>docs\<close> of six plain files, one of them hidden, and the same directory
  at a later time, when \<open>notes.txt\<close> and others are gone and \<open>new.txt\<close> has appeared.
  \<open>fl_docs\<close> is the panel after listing the first.
\<close>

definition fs_docs :: fs where
  "fs_docs =
     \<lparr>listdir = (\<lambda>p.
         if p = [''docs'']
         then Inr [''photo.PNG'', ''notes.txt'', ''clip.mp4'', ''.secret.txt'', ''report.pdf'',
                   ''document_plan.odt'']
         else Inl OSError),
       is_dir = (\<lambda>p. Inr (p = [''docs'']))\<rparr>"

definition fs_docs_later :: fs where
  "fs_docs_later =
     \<lparr>listdir = (\<lambda>p.
         if p = [''docs''] then Inr [''photo.PNG'', ''new.txt'', ''clip.mp4''] else Inl OSError),
       is_dir = (\<lambda>p. Inr (p = [''docs'']))\<rparr>"

definition fl_docs :: file_list where
  "fl_docs = load_directory fs_docs
     \<lparr>current_path = [], files = [], selected_idx = 0, show_hidden = False\<rparr> [''docs'']"

text \<open>
  A tree for the search: the root \<open>targets\<close> has the subdirectory \<open>a\<close>, which holds
  \<open>target.txt\<close>, and the empty subdirectory \<open>b\<close>.
\<close>

definition fs_tree :: fs where
  "fs_tree =
     \<lparr>listdir = (\<lambda>p.
         if p = [''targets''] then Inr [''a'', ''b'']
         else if p = [''targets'', ''a''] then Inr [''target.txt'']
         else if p = [''targets'', ''b''] then Inr []
         else Inl OSError),
       is_dir = (\<lambda>p. Inr (p = [''targets''] \<or> p = [''targets'', ''a''] \<or> p = [''targets'', ''b'']))\<rparr>"

text \<open>
  A wide tree: the root \<open>w\<close> has 300 subdirectories \<open>dir_aa\<close>, ..., \<open>dir_ot\<close>, all
  empty. The tree has 301 directories.
\<close>

definition wide_names :: "string list" where
  "wide_names = map ((@) ''dir_'') big_names"

definition fs_wide :: fs where
  "fs_wide =
     \<lparr>listdir = (\<lambda>p.
         if p = [''w''] then Inr wide_names
         else if length p = 2 \<and> hd p = ''w'' \<and> last p \<in> set wide_names then Inr []
         else Inl OSError),
       is_dir = (\<lambda>p. Inr (p = [''w''] \<or> length p = 2 \<and> hd p = ''w'' \<and> last p \<in> set wide_names))\<rparr>"

text \<open>
  The application in search mode on \<open>docs\<close>, after the user has typed \<open>re\<close> and then
  \<open>rep\<close> before any timer has fired.
\<close>

definition app_typing :: app where
  "app_typing =
     on_input_changed fs_docs
       (on_input_changed fs_docs (action_search_mode (app_init fl_docs)) ''re'') ''rep''"

section \<open>Sorting with probed keys\<close>

text \<open>
  Collecting the keys succeeds exactly when every type probe succeeds, and the sort
  of the decorated list is the stable sort of the items by their keys.
\<close>

lemma collect_map_Inr: "collect (map Inr ks) = Inr ks"
  by (induction ks) auto

lemma collect_Inr_D: "collect rs = Inr ks \<Longrightarrow> rs = map Inr ks"
proof (induction rs arbitrary: ks rule: collect.induct)
  case 1
  then show ?case by simp
next
  case (2 e rs)
  then show ?case by simp
next
  case (3 x rs)
  then show ?case by (cases "collect rs") auto
qed

lemma collect_Inr_iff: "collect rs = Inr ks \<longleftrightarrow> rs = map Inr ks"
  using collect_map_Inr collect_Inr_D by metis

lemma map_key_of_iff:
  "map (key_of fsys) items = map Inr ks \<longleftrightarrow>
   probes_ok fsys items \<and> ks = map (the_key fsys) items"
proof (induction items arbitrary: ks)
  case Nil
  show ?case by (auto simp: probes_ok_def)
next
  case (Cons x xs)
  have p: "probes_ok fsys (x # xs) \<longleftrightarrow> (\<exists>d. is_dir fsys x = Inr d) \<and> probes_ok fsys xs"
    by (simp add: probes_ok_def)
  have k: "key_of fsys x = Inr k \<longleftrightarrow> (\<exists>d. is_dir fsys x = Inr d) \<and> k = the_key fsys x" for k
    by (cases "is_dir fsys x") (auto simp: key_of_def the_key_def)
  show ?case
  proof (cases ks)
    case Nil
    then show ?thesis by simp
  next
    case (Cons k ks')
    then show ?thesis using Cons.IH[of ks'] by (auto simp: p k)
  qed
qed

lemma collect_key_of:
  "collect (map (key_of fsys) items) = Inr ks \<longleftrightarrow>
   probes_ok fsys items \<and> ks = map (the_key fsys) items"
  by (simp add: collect_Inr_iff map_key_of_iff)

lemma map_snd_insort_decorated:
  "\<forall>q\<in>set ys. fst q = f (snd q) \<Longrightarrow>
   map snd (insort_key fst (f x, x) ys) = insort_key f x (map snd ys)"
  by (induction ys) auto

lemma decorated_sort:
  "map snd (sort_key fst (zip (map f xs) xs)) = sort_key f xs"
proof (induction xs)
  case Nil
  show ?case by simp
next
  case (Cons x xs)
  have "\<forall>q\<in>set (sort_key fst (zip (map f xs) xs)). fst q = f (snd q)"
    by (auto simp: set_zip)
  then show ?case using Cons by (simp add: map_snd_insort_decorated)
qed

lemma sort_items_Inr_iff:
  "sort_items fsys items = Inr xs \<longleftrightarrow> probes_ok fsys items \<and> xs = sort_key (the_key fsys) items"
proof (cases "collect (map (key_of fsys) items)")
  case (Inl e)
  then show ?thesis using collect_key_of[of fsys items] by (auto simp: sort_items_def)
next
  case (Inr ks)
  then show ?thesis using collect_key_of[of fsys items ks] 
    by (auto simp: sort_items_def decorated_sort)
qed

lemma sort_items_Inl_iff:
  "(\<exists>e. sort_items fsys items = Inl e) \<longleftrightarrow> \<not> probes_ok fsys items"
  using sort_items_Inr_iff[of fsys items] by (cases "sort_items fsys items") auto

lemma key_le_listing_le:
  assumes "is_dir fsys a = Inr da" "is_dir fsys b = Inr db" "the_key fsys a \<le> the_key fsys b"
  shows "listing_le fsys a b"
  using assms by (auto simp: the_key_def listing_le_def less_eq_prod_def)

lemma probes_ok_filter: "probes_ok fsys items \<Longrightarrow> probes_ok fsys (filter P items)"
  by (simp add: probes_ok_def)

section \<open>Properties of the directory listing\<close>

lemma load_items_Inr_iff:
  "load_items fsys sh p = Inr xs \<longleftrightarrow>
     (\<exists>items. iterdir fsys p = Inr items \<and> probes_ok fsys (visible sh items) \<and>
        xs = take 300 (sort_key (the_key fsys) (visible sh items)))"
proof (cases "iterdir fsys p")
  case (Inl e)
  then show ?thesis by (simp add: load_items_def)
next
  case (Inr items)
  show ?thesis
  proof (cases "sort_items fsys (visible sh items)")
    case (Inl e)
    then have "\<not> probes_ok fsys (visible sh items)" using sort_items_Inl_iff by blast
    then show ?thesis using Inl Inr by (simp add: load_items_def visible_def)
  next
    case r: (Inr srt)
    then show ?thesis using Inr sort_items_Inr_iff[of fsys "visible sh items" srt]
      by (auto simp: load_items_def visible_def)
  qed
qed

lemma load_items_ok:
  assumes "iterdir fsys p = Inr items" "probes_ok fsys (visible sh items)"
  shows "load_items fsys sh p = Inr (take 300 (sort_key (the_key fsys) (visible sh items)))"
  using assms load_items_Inr_iff by blast

lemma listdir_fails:
  "listdir fsys p = Inl e \<Longrightarrow> load_items fsys sh p = Inl e"
  by (simp add: load_items_def iterdir_def)

lemma files_load_directory:
  "files (load_directory fsys fl p) =
     (case load_items fsys (show_hidden fl) p of Inl e \<Rightarrow> [] | Inr xs \<Rightarrow> xs)"
  by (simp add: load_directory_def Let_def split: sum.splits)

lemma sorted_nth_key:
  assumes "sorted (map f xs)" "i < j" "j < length xs"
  shows "f (xs ! i) \<le> f (xs ! j)"
  using assms sorted_nth_mono[of "map f xs" i j] by simp

lemma prefix_filter_take:
  "prefix (filter P (take n xs)) (take n (filter P xs))"
proof -
  have "prefix (filter P (take n xs)) (filter P xs)"
    by (rule filter_mono_prefix) (rule take_is_prefix)
  then obtain zs where zs: "filter P xs = filter P (take n xs) @ zs" by (auto simp: prefix_def)
  have "length (filter P (take n xs)) \<le> n"
    using length_filter_le[of P "take n xs"] by simp
  then have "take n (filter P xs) = filter P (take n xs) @ take (n - length (filter P (take n xs))) zs"
    by (subst zs) simp
  then show ?thesis by (simp add: prefix_def)
qed

subsection \<open>The example directories\<close>

lemmas home_eval = load_directory_def load_items_def iterdir_def fs_home_def fl_home_def
  sort_items_def key_of_def child_def hidden_def name_def lower_def lower_char_def

lemma files_home:
  "files (load_directory fs_home fl_home [''home'']) =
     [[''home'', ''locked''], [''home'', ''src''], [''home'', ''a.PNG''], [''home'', ''b.txt''],
      [''home'', ''Zed'']]"
  by (simp add: home_eval)

lemma files_home_hidden:
  "files (toggle_hidden fs_home fl_home) =
     [[''home'', ''.git''], [''home'', ''locked''], [''home'', ''src''], [''home'', ''a.PNG''],
      [''home'', ''b.txt''], [''home'', ''Zed'']]"
  by (simp add: toggle_hidden_def home_eval)

lemma in_pairs:
  "n \<in> set [[a, b]. a \<leftarrow> A, b \<leftarrow> B] \<Longrightarrow> \<exists>a b. n = [a, b] \<and> a \<in> set A \<and> b \<in> set B"
  by auto

lemma length_pairs: "length [[a, b]. a \<leftarrow> A, b \<leftarrow> B] = length A * length B"
  by (induction A) auto

lemma hidden_big_name:
  assumes "n \<in> set big_names"
  shows "\<not> hidden (child p n)"
proof -
  obtain a b where n: "n = [a, b]" and a: "a \<in> set ''abcdefghijklmno''"
    using assms in_pairs unfolding big_names_def by blast
  have "CHR ''.'' \<notin> set ''abcdefghijklmno''" by simp
  then have "a \<noteq> CHR ''.''" using a by metis
  then show ?thesis by (simp add: hidden_def child_def name_def n)
qed

lemma length_big_names: "length big_names = 300"
  unfolding big_names_def length_pairs by simp

lemma iterdir_big: "iterdir fs_big [''big''] = Inr (map (child [''big'']) (''.z'' # big_names))"
  by (simp add: iterdir_def fs_big_def)

lemma probes_ok_big: "probes_ok fs_big items"
  by (simp add: probes_ok_def fs_big_def)

lemma visible_big:
  "filter (\<lambda>i. \<not> hidden i) (map (child [''big'']) (''.z'' # big_names)) = map (child [''big'']) big_names"
proof -
  have "hidden (child [''big''] ''.z'')" by (simp add: hidden_def child_def name_def)
  moreover have "filter (\<lambda>i. \<not> hidden i) (map (child [''big'']) big_names) = map (child [''big'']) big_names"
    by (rule filter_True) (auto simp: hidden_big_name)
  ultimately show ?thesis by simp
qed

lemma hidden_items_big:
  "filter hidden (map (child [''big'']) (''.z'' # big_names)) = [child [''big''] ''.z'']"
proof -
  have "hidden (child [''big''] ''.z'')" by (simp add: hidden_def child_def name_def)
  moreover have "filter hidden (map (child [''big'']) big_names) = []"
    by (auto simp: filter_empty_conv hidden_big_name)
  ultimately show ?thesis by simp
qed

lemma visible_False_big:
  "visible False (map (child [''big'']) (''.z'' # big_names)) = map (child [''big'']) big_names"
  by (simp only: visible_def visible_big not_False_eq_True if_True)

lemma files_big_shown:
  "files (load_directory fs_big (fl\<lparr>show_hidden := True\<rparr>) [''big'']) =
     take 300 (sort_key (the_key fs_big) (map (child [''big'']) (''.z'' # big_names)))"
  using load_items_ok[OF iterdir_big probes_ok_big, of True]
  by (simp add: files_load_directory visible_def)

lemma files_big_unshown:
  "files (load_directory fs_big (fl\<lparr>show_hidden := False\<rparr>) [''big'']) =
     take 300 (sort_key (the_key fs_big) (map (child [''big'']) big_names))"
proof -
  have "load_items fs_big False [''big''] =
          Inr (take 300 (sort_key (the_key fs_big) (map (child [''big'']) big_names)))"
    using load_items_ok[OF iterdir_big probes_ok_big, of False] unfolding visible_False_big .
  then show ?thesis by (simp add: files_load_directory)
qed

subsection \<open>Order of a listing\<close>

text \<open>
  Claim C4. In every listing that \<open>load_directory\<close> produces, an entry never comes
  after an entry it should follow: of two entries at positions \<open>i < j\<close>, the later one
  is a directory only if the earlier one is, and when both are of the same kind the
  lowercased name of the earlier one is at most that of the later one. So all
  directories precede all files, and each group is in case-insensitive lexicographic
  order by name.
\<close>

theorem load_directory_sorted:
  assumes "i < j" and "j < length (files (load_directory fsys fl p))"
  shows "listing_le fsys (files (load_directory fsys fl p) ! i) (files (load_directory fsys fl p) ! j)"
proof (cases "load_items fsys (show_hidden fl) p")
  case (Inl e)
  then show ?thesis using assms by (simp add: files_load_directory)
next
  case (Inr xs)
  then obtain items where ok: "probes_ok fsys (visible (show_hidden fl) items)"
    and xs: "xs = take 300 (sort_key (the_key fsys) (visible (show_hidden fl) items))"
    using load_items_Inr_iff by blast
  have fl: "files (load_directory fsys fl p) = xs" using Inr by (simp add: files_load_directory)
  let ?srt = "sort_key (the_key fsys) (visible (show_hidden fl) items)"
  have j: "j < length xs" and i: "i < length xs" using assms fl by auto
  have "sorted (map (the_key fsys) xs)" unfolding xs
    by (simp add: sorted_wrt_take flip: take_map)
  then have le: "the_key fsys (xs ! i) \<le> the_key fsys (xs ! j)"
    using sorted_nth_key assms(1) j by blast
  have "set xs \<subseteq> set (visible (show_hidden fl) items)"
    unfolding xs using set_take_subset[of 300 ?srt] by simp
  then have "\<exists>d. is_dir fsys (xs ! i) = Inr d" "\<exists>d. is_dir fsys (xs ! j) = Inr d"
    using ok i j nth_mem unfolding probes_ok_def by blast+
  then show ?thesis using le key_le_listing_le fl by blast
qed

theorem load_directory_sorted_witness:
  "(1::nat) < 2 \<and> 2 < length (files (load_directory fs_home fl_home [''home''])) \<and>
   files (load_directory fs_home fl_home [''home'']) ! 1 = [''home'', ''src''] \<and>
   files (load_directory fs_home fl_home [''home'']) ! 2 = [''home'', ''a.PNG''] \<and>
   listing_le fs_home [''home'', ''src''] [''home'', ''a.PNG'']"
proof -
  have h: "(1::nat) < 2" "2 < length (files (load_directory fs_home fl_home [''home'']))"
    by (simp_all add: files_home)
  show ?thesis using load_directory_sorted[OF h] h by (simp add: files_home)
qed

subsection \<open>The cap of 300 entries\<close>

text \<open>
  Claim C5. The cap is the constant 300 of \<open>load_directory\<close>. A listing never has more
  than 300 entries; when the directory read and the sort succeed, the listing is the
  first 300 entries of the sorted sequence, and every entry that was dropped comes, in
  the listing order, at or after every entry that was kept.
\<close>

theorem load_directory_cap:
  "length (files (load_directory fsys fl p)) \<le> 300 \<and>
   (\<forall>items srt. iterdir fsys p = Inr items \<longrightarrow>
      sort_items fsys (if \<not> show_hidden fl then filter (\<lambda>i. \<not> hidden i) items else items) = Inr srt \<longrightarrow>
        files (load_directory fsys fl p) = take 300 srt \<and>
        (\<forall>x\<in>set (files (load_directory fsys fl p)). \<forall>y\<in>set (drop 300 srt). listing_le fsys x y))"
proof (intro conjI allI impI)
  show "length (files (load_directory fsys fl p)) \<le> 300"
    by (auto simp: files_load_directory load_items_def split: sum.splits)
next
  fix items srt
  assume it: "iterdir fsys p = Inr items"
    and so: "sort_items fsys (if \<not> show_hidden fl then filter (\<lambda>i. \<not> hidden i) items else items) = Inr srt"
  show "files (load_directory fsys fl p) = take 300 srt"
    using it so by (simp add: files_load_directory load_items_def)
next
  fix items srt
  assume it: "iterdir fsys p = Inr items"
    and so: "sort_items fsys (if \<not> show_hidden fl then filter (\<lambda>i. \<not> hidden i) items else items) = Inr srt"
  have f: "files (load_directory fsys fl p) = take 300 srt"
    using it so by (simp add: files_load_directory load_items_def)
  have ok: "probes_ok fsys (visible (show_hidden fl) items)"
    and srt: "srt = sort_key (the_key fsys) (visible (show_hidden fl) items)"
    using so sort_items_Inr_iff[of fsys "visible (show_hidden fl) items" srt]
    by (simp_all add: visible_def)
  have sorted: "sorted (map (the_key fsys) srt)" by (simp add: srt)
  have probes: "\<exists>d. is_dir fsys z = Inr d" if "z \<in> set srt" for z
    using that ok by (simp add: srt probes_ok_def)
  show "\<forall>x\<in>set (files (load_directory fsys fl p)). \<forall>y\<in>set (drop 300 srt). listing_le fsys x y"
  proof (intro ballI)
    fix x y assume x: "x \<in> set (files (load_directory fsys fl p))" and y: "y \<in> set (drop 300 srt)"
    have "sorted (map (the_key fsys) (take 300 srt @ drop 300 srt))" using sorted by simp
    then have "the_key fsys x \<le> the_key fsys y"
      using x y unfolding f map_append sorted_append by auto
    moreover have "x \<in> set srt" "y \<in> set srt"
      using x y f in_set_takeD in_set_dropD by metis+
    ultimately show "listing_le fsys x y" using probes key_le_listing_le by blast
  qed
qed

theorem load_directory_cap_witness:
  "iterdir fs_big [''big''] = Inr (map (child [''big'']) (''.z'' # big_names)) \<and>
   sort_items fs_big (map (child [''big'']) (''.z'' # big_names)) =
     Inr (sort_key (the_key fs_big) (map (child [''big'']) (''.z'' # big_names))) \<and>
   length (sort_key (the_key fs_big) (map (child [''big'']) (''.z'' # big_names))) = 301 \<and>
   length (files (load_directory fs_big (fl_big\<lparr>show_hidden := True\<rparr>) [''big''])) = 300 \<and>
   listing_le fs_big
     (hd (files (load_directory fs_big (fl_big\<lparr>show_hidden := True\<rparr>) [''big''])))
     (last (sort_key (the_key fs_big) (map (child [''big'']) (''.z'' # big_names))))"
proof -
  let ?items = "map (child [''big'']) (''.z'' # big_names)"
  let ?srt = "sort_key (the_key fs_big) ?items"
  let ?L = "load_directory fs_big (fl_big\<lparr>show_hidden := True\<rparr>) [''big'']"
  have so: "sort_items fs_big ?items = Inr ?srt"
    using sort_items_Inr_iff probes_ok_big by blast
  have so': "sort_items fs_big
      (if \<not> show_hidden (fl_big\<lparr>show_hidden := True\<rparr>) then filter (\<lambda>i. \<not> hidden i) ?items
       else ?items) = Inr ?srt"
    using so by simp
  have len: "length ?srt = 301" by (simp add: length_big_names)
  have f: "files ?L = take 300 ?srt" by (rule files_big_shown)
  have lf: "length (files ?L) = 300" unfolding f using len by simp
  have x: "hd (files ?L) \<in> set (files ?L)" using lf by (intro hd_in_set) auto
  have "drop 300 ?srt \<noteq> []" using len by simp
  then have "last (drop 300 ?srt) \<in> set (drop 300 ?srt)" by (rule last_in_set)
  then have y: "last ?srt \<in> set (drop 300 ?srt)" using len by simp
  have "listing_le fs_big (hd (files ?L)) (last ?srt)"
    using load_directory_cap[of fs_big "fl_big\<lparr>show_hidden := True\<rparr>" "[''big'']"]
      iterdir_big so' x y by blast
  then show ?thesis using iterdir_big so len lf by blast
qed

subsection \<open>A directory that cannot be read\<close>

text \<open>
  Claim C6. When the \<open>try\<close> block of \<open>load_directory\<close> raises (the directory read
  or a type probe fails with a permission or I/O error), the handler leaves an empty
  listing: the result is the panel moved to the path, with no files and the selection
  at 0. Nothing is raised to the caller, the navigation stack is not in reach of the
  operation, and any later listing is what it would have been without the failure.
\<close>

theorem load_directory_read_failure:
  assumes "load_items fsys (show_hidden fl) p = Inl e"
  shows "load_directory fsys fl p = fl\<lparr>current_path := p, selected_idx := 0, files := []\<rparr> \<and>
         (\<forall>q. load_directory fsys (load_directory fsys fl p) q = load_directory fsys fl q)"
  using assms by (simp add: load_directory_def Let_def split: sum.splits)

theorem load_directory_read_failure_witness:
  "listdir fs_home [''home'', ''locked''] = Inl PermissionError \<and>
   load_directory fs_home fl_home [''home'', ''locked''] =
     \<lparr>current_path = [''home'', ''locked''], files = [], selected_idx = 0, show_hidden = False\<rparr> \<and>
   files (load_directory fs_home (load_directory fs_home fl_home [''home'', ''locked'']) [''home'']) =
     [[''home'', ''locked''], [''home'', ''src''], [''home'', ''a.PNG''], [''home'', ''b.txt''],
      [''home'', ''Zed'']]"
proof -
  have l: "listdir fs_home [''home'', ''locked''] = Inl PermissionError"
    by (simp add: fs_home_def)
  have "load_items fs_home (show_hidden fl_home) [''home'', ''locked''] = Inl PermissionError"
    using l by (rule listdir_fails)
  from load_directory_read_failure[OF this]
  have a: "load_directory fs_home fl_home [''home'', ''locked''] =
      fl_home\<lparr>current_path := [''home'', ''locked''], selected_idx := 0, files := []\<rparr>"
    and b: "load_directory fs_home (load_directory fs_home fl_home [''home'', ''locked'']) [''home''] =
      load_directory fs_home fl_home [''home'']"
    by blast+
  have c: "fl_home\<lparr>current_path := [''home'', ''locked''], selected_idx := 0, files := []\<rparr> =
     \<lparr>current_path = [''home'', ''locked''], files = [], selected_idx = 0, show_hidden = False\<rparr>"
    by (simp add: fl_home_def)
  show ?thesis using l a b c files_home by simp
qed

subsection \<open>Showing hidden entries\<close>

lemma toggle_hidden_adds_hidden_aux:
  assumes off: "\<not> show_hidden fl"
    and it: "iterdir fsys (current_path fl) = Inr items"
    and ok: "probes_ok fsys items"
  shows "prefix (filter (\<lambda>i. \<not> hidden i) (files (toggle_hidden fsys fl)))
                (files (load_directory fsys fl (current_path fl))) \<and>
         (length items \<le> 300 \<longrightarrow>
            filter (\<lambda>i. \<not> hidden i) (files (toggle_hidden fsys fl)) =
              files (load_directory fsys fl (current_path fl)) \<and>
            mset (files (toggle_hidden fsys fl)) =
              mset (files (load_directory fsys fl (current_path fl))) + mset (filter hidden items))"
proof -
  let ?k = "the_key fsys"
  let ?nh = "\<lambda>i. \<not> hidden i"
  have on: "files (toggle_hidden fsys fl) = take 300 (sort_key ?k items)"
    using load_items_ok[OF it, of True] ok off
    by (simp add: toggle_hidden_def files_load_directory visible_def)
  have "files (load_directory fsys fl (current_path fl)) = take 300 (sort_key ?k (filter ?nh items))"
    using load_items_ok[OF it, of False] probes_ok_filter[OF ok] off
    by (simp add: files_load_directory visible_def)
  then have offl: "files (load_directory fsys fl (current_path fl)) = take 300 (filter ?nh (sort_key ?k items))"
    by (simp add: filter_sort)
  have p: "prefix (filter ?nh (files (toggle_hidden fsys fl))) (files (load_directory fsys fl (current_path fl)))"
    unfolding on offl by (rule prefix_filter_take)
  have e: "filter ?nh (files (toggle_hidden fsys fl)) = files (load_directory fsys fl (current_path fl))"
    and m: "mset (files (toggle_hidden fsys fl)) =
              mset (files (load_directory fsys fl (current_path fl))) + mset (filter hidden items)"
    if "length items \<le> 300"
  proof -
    have l: "length (filter ?nh (sort_key ?k items)) \<le> 300"
      using that length_filter_le[of ?nh "sort_key ?k items"] by simp
    show "filter ?nh (files (toggle_hidden fsys fl)) = files (load_directory fsys fl (current_path fl))"
      unfolding on offl using that l by simp
    have m1: "mset (files (toggle_hidden fsys fl)) = mset items"
      unfolding on using that by simp
    have m2: "mset (files (load_directory fsys fl (current_path fl))) = mset (filter ?nh items)"
      unfolding offl using l by (simp add: filter_sort)
    have m3: "mset items = mset (filter ?nh items) + mset (filter hidden items)"
      by (induction items) auto
    show "mset (files (toggle_hidden fsys fl)) =
        mset (files (load_directory fsys fl (current_path fl))) + mset (filter hidden items)"
      unfolding m1 m2 by (rule m3)
  qed
  show ?thesis
  proof (intro conjI impI)
    show "prefix (filter ?nh (files (toggle_hidden fsys fl)))
            (files (load_directory fsys fl (current_path fl)))" by (rule p)
  next
    assume "length items \<le> 300"
    then show "filter ?nh (files (toggle_hidden fsys fl)) =
        files (load_directory fsys fl (current_path fl))" by (rule e)
  next
    assume "length items \<le> 300"
    then show "mset (files (toggle_hidden fsys fl)) =
        mset (files (load_directory fsys fl (current_path fl))) + mset (filter hidden items)"
      by (rule m)
  qed
qed

text \<open>
  Claim C9, amended. Take a panel that hides hidden entries, on a directory whose read
  and type probes succeed. The non-hidden entries of the listing with hidden entries
  shown are, in the same order, an initial part of the listing without them. When the
  directory has at most 300 entries they are all of it, and the listing with hidden
  entries shown consists of exactly the entries of the other listing plus the hidden
  entries of the directory.
\<close>

theorem toggle_hidden_adds_hidden:
  assumes off: "\<not> show_hidden fl"
    and it: "iterdir fsys (current_path fl) = Inr items"
    and so: "sort_items fsys items = Inr listing"
  shows "prefix (filter (\<lambda>i. \<not> hidden i) (files (toggle_hidden fsys fl)))
                (files (load_directory fsys fl (current_path fl))) \<and>
         (length items \<le> 300 \<longrightarrow>
            filter (\<lambda>i. \<not> hidden i) (files (toggle_hidden fsys fl)) =
              files (load_directory fsys fl (current_path fl)) \<and>
            mset (files (toggle_hidden fsys fl)) =
              mset (files (load_directory fsys fl (current_path fl))) + mset (filter hidden items))"
proof -
  have "probes_ok fsys items" using so sort_items_Inr_iff by blast
  then show ?thesis using off it by (rule toggle_hidden_adds_hidden_aux[rotated 2])
qed

theorem toggle_hidden_adds_hidden_witness:
  "\<not> show_hidden fl_home \<and>
   iterdir fs_home (current_path fl_home) =
     Inr (map (child [''home'']) [''b.txt'', ''.git'', ''Zed'', ''a.PNG'', ''src'', ''locked'']) \<and>
   sort_items fs_home
       (map (child [''home'']) [''b.txt'', ''.git'', ''Zed'', ''a.PNG'', ''src'', ''locked'']) =
     Inr [[''home'', ''.git''], [''home'', ''locked''], [''home'', ''src''], [''home'', ''a.PNG''],
          [''home'', ''b.txt''], [''home'', ''Zed'']] \<and>
   files (toggle_hidden fs_home fl_home) =
     [[''home'', ''.git''], [''home'', ''locked''], [''home'', ''src''], [''home'', ''a.PNG''],
      [''home'', ''b.txt''], [''home'', ''Zed'']] \<and>
   filter (\<lambda>i. \<not> hidden i) (files (toggle_hidden fs_home fl_home)) =
     files (load_directory fs_home fl_home (current_path fl_home)) \<and>
   mset (files (toggle_hidden fs_home fl_home)) =
     mset (files (load_directory fs_home fl_home (current_path fl_home))) + {#[''home'', ''.git'']#}"
proof -
  let ?items = "map (child [''home'']) [''b.txt'', ''.git'', ''Zed'', ''a.PNG'', ''src'', ''locked'']"
  have off: "\<not> show_hidden fl_home" by (simp add: fl_home_def)
  have it: "iterdir fs_home (current_path fl_home) = Inr ?items"
    by (simp add: iterdir_def fs_home_def fl_home_def)
  have so: "sort_items fs_home ?items =
     Inr [[''home'', ''.git''], [''home'', ''locked''], [''home'', ''src''], [''home'', ''a.PNG''],
          [''home'', ''b.txt''], [''home'', ''Zed'']]"
    by (simp add: home_eval)
  have len: "length ?items \<le> 300" by simp
  have h: "filter hidden ?items = [[''home'', ''.git'']]"
    by (simp add: hidden_def child_def name_def)
  show ?thesis
    using toggle_hidden_adds_hidden[OF off it so] len off it so files_home_hidden unfolding h
    by simp
qed

text \<open>
  Claim C9 as stated fails on a directory of more than 300 entries. In directory
  \<open>big\<close> the listing without hidden entries has the 300 two-letter names; with hidden
  entries shown, \<open>.z\<close> is listed but the cap of 300 leaves no room for one of the
  others, so the listing is not the other listing plus the hidden entry.
\<close>

theorem toggle_hidden_cap_counterexample:
  "iterdir fs_big (current_path fl_big) = Inr (map (child [''big'']) (''.z'' # big_names)) \<and>
   length (files (load_directory fs_big fl_big (current_path fl_big))) = 300 \<and>
   filter hidden (map (child [''big'']) (''.z'' # big_names)) = [[''big'', ''.z'']] \<and>
   length (files (toggle_hidden fs_big fl_big)) = 300 \<and>
   mset (files (toggle_hidden fs_big fl_big)) \<noteq>
     mset (files (load_directory fs_big fl_big (current_path fl_big))) +
     mset (filter hidden (map (child [''big'']) (''.z'' # big_names)))"
proof -
  have a: "fl_big = fl_big\<lparr>show_hidden := False\<rparr>" by (simp add: fl_big_def)
  have p: "current_path fl_big = [''big'']" by (simp add: fl_big_def)
  have t: "toggle_hidden fs_big fl_big = load_directory fs_big (fl_big\<lparr>show_hidden := True\<rparr>) [''big'']"
    by (simp add: toggle_hidden_def fl_big_def)
  have l1: "length (files (load_directory fs_big fl_big (current_path fl_big))) = 300"
    unfolding p by (subst a) (simp add: files_big_unshown length_big_names)
  have l2: "length (files (toggle_hidden fs_big fl_big)) = 300"
    unfolding t by (simp add: files_big_shown length_big_names)
  have h: "filter hidden (map (child [''big'']) (''.z'' # big_names)) = [[''big'', ''.z'']]"
    using hidden_items_big by (simp add: child_def)
  have sz: "A \<noteq> B" if "size A \<noteq> size B" for A B :: "path multiset"
    using that by auto
  have "mset (files (toggle_hidden fs_big fl_big)) \<noteq>
     mset (files (load_directory fs_big fl_big (current_path fl_big))) +
     mset (filter hidden (map (child [''big'']) (''.z'' # big_names)))"
    unfolding h by (rule sz) (simp add: l1 l2)
  then show ?thesis using l1 l2 h iterdir_big unfolding p by (intro conjI)
qed

section \<open>Properties of the filter\<close>

lemma probes_ok_visible: "probes_ok fsys items \<Longrightarrow> probes_ok fsys (visible sh items)"
  by (simp add: visible_def probes_ok_filter)

lemma filter_items_ok:
  assumes "iterdir fsys p = Inr items" "probes_ok fsys items"
  shows "filter_items fsys p t =
           Inr (sort_key (the_key fsys) (filter (filter_pred t) items))"
  using assms sort_items_Inr_iff[of fsys "filter (filter_pred t) items"] probes_ok_filter
  by (simp add: filter_items_def)

lemma files_apply_filter:
  assumes "iterdir fsys (current_path fl) = Inr items" "probes_ok fsys items"
  shows "files (apply_filter fsys fl filter_text) =
           (if strip (lower filter_text) = []
            then take 300 (sort_key (the_key fsys) (visible (show_hidden fl) items))
            else take 300 (sort_key (the_key fsys)
                   (filter (filter_pred (strip (lower filter_text))) items)))"
proof (cases "strip (lower filter_text) = []")
  case True
  have "load_items fsys (show_hidden fl) (current_path fl) =
      Inr (take 300 (sort_key (the_key fsys) (visible (show_hidden fl) items)))"
    using assms probes_ok_visible load_items_ok by blast
  then show ?thesis using True by (simp add: apply_filter_def files_load_directory)
next
  case False
  then show ?thesis using filter_items_ok[OF assms] by (simp add: apply_filter_def Let_def)
qed

lemma subseq_take_sort_filter:
  "subseq (take n (sort_key f (filter P xs))) (sort_key f xs)"
proof -
  have "subseq (take n (filter P (sort_key f xs))) (filter P (sort_key f xs))"
    using take_is_prefix prefix_imp_subseq by blast
  then have "subseq (take n (filter P (sort_key f xs))) (sort_key f xs)"
    using subseq_filter_left subseq_order.order_trans by blast
  then show ?thesis by (simp add: filter_sort)
qed

lemma subseq_imp_subset: "subseq xs ys \<Longrightarrow> set xs \<subseteq> set ys"
  by (auto dest: list_emb_set)

lemma type_filters_keys:
  "k \<in> {''img'', ''image'', ''vid'', ''video'', ''audio'', ''doc'', ''code'', ''archive''} \<Longrightarrow>
   \<exists>extensions. map_of type_filters k = Some extensions"
  by (auto simp: type_filters_def)

lemma apply_filter_subseq_aux:
  assumes "iterdir fsys (current_path fl) = Inr items" and "probes_ok fsys items"
  shows "subseq (files (apply_filter fsys fl filter_text)) (sort_key (the_key fsys) items) \<and>
         length (files (apply_filter fsys fl filter_text)) \<le> 300 \<and>
         files (apply_filter fsys (fl\<lparr>files := shown, selected_idx := idx\<rparr>) filter_text) =
           files (apply_filter fsys fl filter_text)"
proof -
  have a: "iterdir fsys (current_path (fl\<lparr>files := shown, selected_idx := idx\<rparr>)) = Inr items"
    using assms(1) by simp
  have s: "subseq (take 300 (sort_key (the_key fsys) (visible (show_hidden fl) items)))
             (sort_key (the_key fsys) items)"
    using subseq_take_sort_filter[of 300 "the_key fsys" "\<lambda>i. True" items]
    by (cases "show_hidden fl") (simp_all add: visible_def subseq_take_sort_filter)
  show ?thesis
    unfolding files_apply_filter[OF assms] files_apply_filter[OF a assms(2)]
    using s by (simp add: subseq_take_sort_filter)
qed

lemma apply_filter_category_aux:
  assumes kw: "strip (lower filter_text) \<in>
                 {''img'', ''image'', ''vid'', ''video'', ''audio'', ''doc'', ''code'', ''archive''}"
    and it: "iterdir fsys (current_path fl) = Inr items"
    and ok: "probes_ok fsys items"
  shows "\<exists>extensions.
           map_of type_filters (strip (lower filter_text)) = Some extensions \<and>
           files (apply_filter fsys fl filter_text) =
             take 300 (sort_key (the_key fsys)
               (filter (\<lambda>i. lower (suffix_of i) \<in> set extensions) items)) \<and>
           (length (filter (\<lambda>i. lower (suffix_of i) \<in> set extensions) items) \<le> 300 \<longrightarrow>
              set (files (apply_filter fsys fl filter_text)) =
                {i \<in> set items. lower (suffix_of i) \<in> set extensions})"
proof -
  let ?k = "strip (lower filter_text)"
  obtain extensions where e: "map_of type_filters ?k = Some extensions"
    using type_filters_keys[OF kw] by blast
  have ne: "?k \<noteq> []" using kw by auto
  have p: "filter_pred ?k = (\<lambda>i. lower (suffix_of i) \<in> set extensions)"
    by (rule ext) (simp add: filter_pred_def e)
  let ?m = "filter (\<lambda>i. lower (suffix_of i) \<in> set extensions) items"
  have f: "files (apply_filter fsys fl filter_text) = take 300 (sort_key (the_key fsys) ?m)"
    using files_apply_filter[OF it ok, of filter_text] ne by (simp add: p)
  have "set (take 300 (sort_key (the_key fsys) ?m)) = {i \<in> set items. lower (suffix_of i) \<in> set extensions}"
    if "length ?m \<le> 300"
    using that by simp
  then show ?thesis using e f by auto
qed

subsection \<open>The example directory\<close>

lemmas docs_eval = load_directory_def load_items_def iterdir_def fs_docs_def fs_docs_later_def
  sort_items_def key_of_def child_def hidden_def name_def lower_def lower_char_def
  apply_filter_def filter_items_def filter_pred_def type_filters_def strip_def is_space_def
  suffix_of_def Let_def

lemma fl_docs_eq:
  "fl_docs = \<lparr>current_path = [''docs''],
     files = [[''docs'', ''clip.mp4''], [''docs'', ''document_plan.odt''], [''docs'', ''notes.txt''],
              [''docs'', ''photo.PNG''], [''docs'', ''report.pdf'']],
     selected_idx = 0, show_hidden = False\<rparr>"
  by (simp add: fl_docs_def docs_eval)

lemma iterdir_docs:
  "iterdir fs_docs (current_path fl_docs) =
     Inr (map (child [''docs''])
       [''photo.PNG'', ''notes.txt'', ''clip.mp4'', ''.secret.txt'', ''report.pdf'',
        ''document_plan.odt''])"
  by (simp add: fl_docs_eq) (simp add: iterdir_def fs_docs_def)

lemma probes_ok_docs: "probes_ok fs_docs items"
  by (simp add: probes_ok_def fs_docs_def)

lemma sort_items_docs:
  "sort_items fs_docs (map (child [''docs''])
       [''photo.PNG'', ''notes.txt'', ''clip.mp4'', ''.secret.txt'', ''report.pdf'',
        ''document_plan.odt'']) =
     Inr [[''docs'', ''.secret.txt''], [''docs'', ''clip.mp4''], [''docs'', ''document_plan.odt''],
          [''docs'', ''notes.txt''], [''docs'', ''photo.PNG''], [''docs'', ''report.pdf'']]"
  by (simp add: sort_items_def key_of_def fs_docs_def child_def name_def lower_def lower_char_def)

lemma filter_txt_docs:
  "files (apply_filter fs_docs fl_docs ''.txt'') = [[''docs'', ''.secret.txt''], [''docs'', ''notes.txt'']]"
  by (simp add: fl_docs_eq) (simp add: docs_eval)

lemma filter_txt_docs_later:
  "files (apply_filter fs_docs_later fl_docs ''.txt'') = [[''docs'', ''new.txt'']]"
  by (simp add: fl_docs_eq) (simp add: docs_eval)

lemma filter_image_docs:
  "files (apply_filter fs_docs fl_docs ''image'') = [[''docs'', ''photo.PNG'']]"
  by (simp add: fl_docs_eq) (simp add: docs_eval)

lemma filter_document_docs:
  "files (apply_filter fs_docs fl_docs ''document'') = [[''docs'', ''document_plan.odt'']]"
  by (simp add: fl_docs_eq) (simp add: docs_eval)

lemma filter_doc_docs:
  "files (apply_filter fs_docs fl_docs ''doc'') = [[''docs'', ''.secret.txt''], [''docs'', ''notes.txt''], [''docs'', ''report.pdf'']]"
  by (simp add: fl_docs_eq) (simp add: docs_eval)

subsection \<open>What the filter reads\<close>

text \<open>
  Claim C3, amended. \<open>apply_filter\<close> reads the current directory again. When that read
  and the type probes succeed, its output is an order-preserving subsequence of the
  entries just read, taken in listing order (directories first, then case-insensitive
  by name), of at most 300 entries; and it does not depend on the listing and
  selection the panel showed before.
\<close>

theorem apply_filter_subseq:
  assumes it: "iterdir fsys (current_path fl) = Inr items"
    and so: "sort_items fsys items = Inr listing"
  shows "subseq (files (apply_filter fsys fl filter_text)) listing \<and>
         length (files (apply_filter fsys fl filter_text)) \<le> 300 \<and>
         files (apply_filter fsys (fl\<lparr>files := shown, selected_idx := idx\<rparr>) filter_text) =
           files (apply_filter fsys fl filter_text)"
proof -
  have ok: "probes_ok fsys items" and l: "listing = sort_key (the_key fsys) items"
    using so sort_items_Inr_iff by blast+
  show ?thesis unfolding l by (rule apply_filter_subseq_aux[OF it ok])
qed

theorem apply_filter_subseq_witness:
  "iterdir fs_docs (current_path fl_docs) =
     Inr (map (child [''docs''])
       [''photo.PNG'', ''notes.txt'', ''clip.mp4'', ''.secret.txt'', ''report.pdf'',
        ''document_plan.odt'']) \<and>
   sort_items fs_docs (map (child [''docs''])
       [''photo.PNG'', ''notes.txt'', ''clip.mp4'', ''.secret.txt'', ''report.pdf'',
        ''document_plan.odt'']) =
     Inr [[''docs'', ''.secret.txt''], [''docs'', ''clip.mp4''], [''docs'', ''document_plan.odt''],
          [''docs'', ''notes.txt''], [''docs'', ''photo.PNG''], [''docs'', ''report.pdf'']] \<and>
   files (apply_filter fs_docs fl_docs ''.txt'') =
     [[''docs'', ''.secret.txt''], [''docs'', ''notes.txt'']] \<and>
   subseq [[''docs'', ''.secret.txt''], [''docs'', ''notes.txt'']]
     [[''docs'', ''.secret.txt''], [''docs'', ''clip.mp4''], [''docs'', ''document_plan.odt''],
      [''docs'', ''notes.txt''], [''docs'', ''photo.PNG''], [''docs'', ''report.pdf'']]"
  using apply_filter_subseq[OF iterdir_docs sort_items_docs, of "''.txt''"] iterdir_docs
    sort_items_docs
  by (simp add: filter_txt_docs)

text \<open>
  Claim C3 as stated fails: the output is neither a subsequence of the listing the
  panel holds nor independent of the filesystem. The panel \<open>fl_docs\<close> lists five
  entries; filtering it by \<open>.txt\<close> returns the hidden \<open>.secret.txt\<close>, which is not
  among them, and filtering the same panel after the directory has changed returns
  \<open>new.txt\<close>.
\<close>

theorem apply_filter_pure_counterexample:
  "files fl_docs =
     [[''docs'', ''clip.mp4''], [''docs'', ''document_plan.odt''], [''docs'', ''notes.txt''],
      [''docs'', ''photo.PNG''], [''docs'', ''report.pdf'']] \<and>
   files (apply_filter fs_docs fl_docs ''.txt'') =
     [[''docs'', ''.secret.txt''], [''docs'', ''notes.txt'']] \<and>
   \<not> subseq (files (apply_filter fs_docs fl_docs ''.txt'')) (files fl_docs) \<and>
   files (apply_filter fs_docs_later fl_docs ''.txt'') = [[''docs'', ''new.txt'']]"
proof -
  have "\<not> subseq [[''docs'', ''.secret.txt''], [''docs'', ''notes.txt'']] (files fl_docs)"
  proof
    assume "subseq [[''docs'', ''.secret.txt''], [''docs'', ''notes.txt'']] (files fl_docs)"
    then have "set [[''docs'', ''.secret.txt''], [''docs'', ''notes.txt'']] \<subseteq> set (files fl_docs)"
      by (rule subseq_imp_subset)
    then show False by (simp add: fl_docs_eq)
  qed
  then show ?thesis
    by (simp add: filter_txt_docs filter_txt_docs_later) (simp add: fl_docs_eq)
qed

subsection \<open>Category keywords\<close>

text \<open>
  Claim C8, amended. The keywords of the table are \<open>img\<close>, \<open>image\<close>, \<open>vid\<close>,
  \<open>video\<close>, \<open>audio\<close>, \<open>doc\<close>, \<open>code\<close> and \<open>archive\<close>. For a filter text that is
  one of them after lowercasing and stripping, on a directory whose read and type
  probes succeed, the filter resolves the keyword to its extensions and lists the
  first 300, in listing order, of the entries whose lowercased suffix is among them;
  when at most 300 entries match, it keeps exactly those entries.
\<close>

theorem apply_filter_category:
  assumes kw: "strip (lower filter_text) \<in>
                 {''img'', ''image'', ''vid'', ''video'', ''audio'', ''doc'', ''code'', ''archive''}"
    and it: "iterdir fsys (current_path fl) = Inr items"
    and so: "sort_items fsys items = Inr listing"
  shows "\<exists>extensions.
           map_of type_filters (strip (lower filter_text)) = Some extensions \<and>
           files (apply_filter fsys fl filter_text) =
             take 300 (filter (\<lambda>i. lower (suffix_of i) \<in> set extensions) listing) \<and>
           (length (filter (\<lambda>i. lower (suffix_of i) \<in> set extensions) items) \<le> 300 \<longrightarrow>
              set (files (apply_filter fsys fl filter_text)) =
                {i \<in> set items. lower (suffix_of i) \<in> set extensions})"
proof -
  have ok: "probes_ok fsys items" and l: "listing = sort_key (the_key fsys) items"
    using so sort_items_Inr_iff by blast+
  show ?thesis using apply_filter_category_aux[OF kw it ok] unfolding l filter_sort .
qed

theorem apply_filter_category_witness:
  "strip (lower ''image'') = ''image'' \<and>
   map_of type_filters ''image'' =
     Some [''.png'', ''.jpg'', ''.jpeg'', ''.gif'', ''.bmp'', ''.webp'', ''.ico'', ''.svg''] \<and>
   lower (suffix_of [''docs'', ''photo.PNG'']) = ''.png'' \<and>
   files (apply_filter fs_docs fl_docs ''image'') = [[''docs'', ''photo.PNG'']] \<and>
   {i \<in> set (map (child [''docs''])
       [''photo.PNG'', ''notes.txt'', ''clip.mp4'', ''.secret.txt'', ''report.pdf'',
        ''document_plan.odt'']).
      lower (suffix_of i) \<in> set [''.png'', ''.jpg'', ''.jpeg'', ''.gif'', ''.bmp'', ''.webp'', ''.ico'', ''.svg'']}
     = {[''docs'', ''photo.PNG'']}"
proof -
  let ?items = "map (child [''docs''])
       [''photo.PNG'', ''notes.txt'', ''clip.mp4'', ''.secret.txt'', ''report.pdf'',
        ''document_plan.odt'']"
  have s: "strip (lower ''image'') = ''image''"
    by (simp add: strip_def lower_def lower_char_def is_space_def)
  then have kw: "strip (lower ''image'') \<in>
      {''img'', ''image'', ''vid'', ''video'', ''audio'', ''doc'', ''code'', ''archive''}"
    by simp
  have m: "map_of type_filters ''image'' =
     Some [''.png'', ''.jpg'', ''.jpeg'', ''.gif'', ''.bmp'', ''.webp'', ''.ico'', ''.svg'']"
    by (simp add: type_filters_def)
  have sf: "lower (suffix_of [''docs'', ''photo.PNG'']) = ''.png''"
    by (simp add: suffix_of_def name_def lower_def lower_char_def)
  obtain extensions where e: "map_of type_filters (strip (lower ''image'')) = Some extensions"
    and st: "length (filter (\<lambda>i. lower (suffix_of i) \<in> set extensions) ?items) \<le> 300 \<longrightarrow>
              set (files (apply_filter fs_docs fl_docs ''image'')) =
                {i \<in> set ?items. lower (suffix_of i) \<in> set extensions}"
    using apply_filter_category[OF kw iterdir_docs sort_items_docs] by blast
  have ex: "extensions = [''.png'', ''.jpg'', ''.jpeg'', ''.gif'', ''.bmp'', ''.webp'', ''.ico'', ''.svg'']"
    using e m s by simp
  have "length (filter (\<lambda>i. lower (suffix_of i) \<in> set extensions) ?items) \<le> 300"
  proof -
    have "length (filter (\<lambda>i. lower (suffix_of i) \<in> set extensions) ?items) \<le> length ?items"
      by (rule length_filter_le)
    also have "length ?items \<le> 300" by simp
    finally show ?thesis .
  qed
  then have "set (files (apply_filter fs_docs fl_docs ''image'')) =
                {i \<in> set ?items. lower (suffix_of i) \<in> set extensions}"
    using st by blast
  then have "{i \<in> set ?items. lower (suffix_of i) \<in> set extensions} = {[''docs'', ''photo.PNG'']}"
    by (simp add: filter_image_docs)
  then show ?thesis using s m sf filter_image_docs unfolding ex by blast
qed

text \<open>
  Claim C8 as stated fails for the keyword \<open>document\<close>, which is not in the table:
  the text is then a name filter. On \<open>docs\<close> it keeps \<open>document_plan.odt\<close>, whose
  suffix is in no row of the table, and drops the files that \<open>doc\<close> selects.
\<close>

theorem apply_filter_document_counterexample:
  "strip (lower ''document'') = ''document'' \<and>
   map_of type_filters ''document'' = None \<and>
   files (apply_filter fs_docs fl_docs ''document'') = [[''docs'', ''document_plan.odt'']] \<and>
   lower (suffix_of [''docs'', ''document_plan.odt'']) = ''.odt'' \<and>
   ''.odt'' \<notin> set (concat (map snd type_filters)) \<and>
   files (apply_filter fs_docs fl_docs ''doc'') =
     [[''docs'', ''.secret.txt''], [''docs'', ''notes.txt''], [''docs'', ''report.pdf'']]"
proof -
  have "strip (lower ''document'') = ''document''"
    by (simp add: strip_def lower_def lower_char_def is_space_def)
  moreover have "map_of type_filters ''document'' = None"
    by (simp add: type_filters_def)
  moreover have "lower (suffix_of [''docs'', ''document_plan.odt'']) = ''.odt''"
    by (simp add: suffix_of_def name_def lower_def lower_char_def)
  moreover have "''.odt'' \<notin> set (concat (map snd type_filters))"
    by (simp add: type_filters_def)
  ultimately show ?thesis using filter_document_docs filter_doc_docs by blast
qed

section \<open>Properties of the search\<close>

text \<open>
  \<open>bfs_while\<close> is a total function: its termination proof shows that every iteration
  either adds a directory to the visited set, which stays below \<open>max_dirs\<close>, or
  shortens the queue. So the search returns on every filesystem, also one with
  cycles or without end.
\<close>

lemma visited_scan_children [simp]:
  "visited (scan_children fsys query items s) = visited s"
  by (induction items arbitrary: s) (auto simp: Let_def split: sum.splits)

lemma dir_reads_scan_children [simp]:
  "dir_reads (scan_children fsys query items s) = dir_reads s"
  by (induction items arbitrary: s) (auto simp: Let_def split: sum.splits)

lemma scan_children_appends:
  "\<exists>rs qs. results (scan_children fsys query items s) = results s @ rs \<and>
           queue (scan_children fsys query items s) = queue s @ qs \<and>
           set rs \<subseteq> set items \<and> set qs \<subseteq> set items"
proof (induction items arbitrary: s)
  case Nil
  show ?case by simp
next
  case (Cons item items)
  let ?s1 = "if contains query (lower (name item)) then s\<lparr>results := results s @ [item]\<rparr> else s"
  show ?case
  proof (cases "is_dir fsys item")
    case (Inl e)
    then show ?thesis by (auto simp: Let_def)
  next
    case (Inr d)
    let ?s2 = "if d then ?s1\<lparr>queue := queue ?s1 @ [item]\<rparr> else ?s1"
    obtain rs qs where r: "results (scan_children fsys query items ?s2) = results ?s2 @ rs"
      and q: "queue (scan_children fsys query items ?s2) = queue ?s2 @ qs"
      and sub: "set rs \<subseteq> set items" "set qs \<subseteq> set items"
      using Cons[of ?s2] by blast
    have e: "scan_children fsys query (item # items) s = scan_children fsys query items ?s2"
      using Inr by (simp add: Let_def)
    have "\<exists>rs0. results ?s2 = results s @ rs0 \<and> set rs0 \<subseteq> {item}"
      by (cases "contains query (lower (name item))"; cases d) auto
    moreover have "\<exists>qs0. queue ?s2 = queue s @ qs0 \<and> set qs0 \<subseteq> {item}"
      by (cases "contains query (lower (name item))"; cases d) auto
    ultimately obtain rs0 qs0 where "results ?s2 = results s @ rs0" "set rs0 \<subseteq> {item}"
      "queue ?s2 = queue s @ qs0" "set qs0 \<subseteq> {item}" by blast
    then have "results (scan_children fsys query (item # items) s) = results s @ (rs0 @ rs) \<and>
       queue (scan_children fsys query (item # items) s) = queue s @ (qs0 @ qs) \<and>
       set (rs0 @ rs) \<subseteq> set (item # items) \<and> set (qs0 @ qs) \<subseteq> set (item # items)"
      unfolding e r q using sub by auto
    then show ?thesis by blast
  qed
qed

lemma scan_children_all:
  assumes "\<forall>i\<in>set items. contains query (lower (name i)) \<and> is_dir fsys i = Inr True"
  shows "scan_children fsys query items s =
           s\<lparr>queue := queue s @ items, results := results s @ items\<rparr>"
  using assms by (induction items arbitrary: s) (simp_all add: Let_def)

lemma scan_children_queue:
  assumes "\<forall>i\<in>set items. \<exists>d. is_dir fsys i = Inr d"
  shows "queue (scan_children fsys query items s) =
           queue s @ filter (\<lambda>i. is_dir fsys i = Inr True) items"
  using assms
proof (induction items arbitrary: s)
  case Nil
  show ?case by simp
next
  case (Cons item items)
  then obtain d where d: "is_dir fsys item = Inr d" by auto
  have rest: "\<forall>i\<in>set items. \<exists>d. is_dir fsys i = Inr d" using Cons.prems by simp
  show ?case using Cons.IH[OF rest] d by (cases d) (simp_all add: Let_def)
qed

lemma scan_children_results:
  "r \<in> set (results (scan_children fsys query items s)) \<Longrightarrow>
   r \<in> set (results s) \<or> (r \<in> set items \<and> contains query (lower (name r)))"
proof (induction items arbitrary: s)
  case Nil
  then show ?case by simp
next
  case (Cons item items)
  let ?s1 = "if contains query (lower (name item)) then s\<lparr>results := results s @ [item]\<rparr> else s"
  have s1: "x \<in> set (results ?s1) \<Longrightarrow>
      x \<in> set (results s) \<or> (x = item \<and> contains query (lower (name x)))" for x
    by (cases "contains query (lower (name item))") auto
  show ?case
  proof (cases "is_dir fsys item")
    case (Inl e)
    then have "r \<in> set (results ?s1)" using Cons.prems by (simp add: Let_def)
    then show ?thesis using s1 by fastforce
  next
    case (Inr d)
    let ?s2 = "if d then ?s1\<lparr>queue := queue ?s1 @ [item]\<rparr> else ?s1"
    have r2: "results ?s2 = results ?s1" by simp
    have "r \<in> set (results (scan_children fsys query items ?s2))"
      using Cons.prems Inr by (simp add: Let_def)
    then have "r \<in> set (results ?s2) \<or> (r \<in> set items \<and> contains query (lower (name r)))"
      by (rule Cons.IH)
    then show ?thesis unfolding r2 using s1[of r] by auto
  qed
qed

lemma scan_children_queued:
  "p \<in> set (queue (scan_children fsys query items s)) \<Longrightarrow>
   p \<in> set (queue s) \<or> (p \<in> set items \<and> is_dir fsys p = Inr True)"
proof (induction items arbitrary: s)
  case Nil
  then show ?case by simp
next
  case (Cons item items)
  let ?s1 = "if contains query (lower (name item)) then s\<lparr>results := results s @ [item]\<rparr> else s"
  have q1: "queue ?s1 = queue s" by simp
  show ?case
  proof (cases "is_dir fsys item")
    case (Inl e)
    then have "p \<in> set (queue ?s1)" using Cons.prems by (simp add: Let_def)
    then show ?thesis unfolding q1 ..
  next
    case (Inr d)
    let ?s2 = "if d then ?s1\<lparr>queue := queue ?s1 @ [item]\<rparr> else ?s1"
    have q2: "x \<in> set (queue ?s2) \<Longrightarrow> x \<in> set (queue s) \<or> (x = item \<and> d)" for x
      by (cases d; cases "contains query (lower (name item))") auto
    have "p \<in> set (queue (scan_children fsys query items ?s2))"
      using Cons.prems Inr by (simp add: Let_def)
    then have "p \<in> set (queue ?s2) \<or> (p \<in> set items \<and> is_dir fsys p = Inr True)"
      by (rule Cons.IH)
    then show ?thesis using q2[of p] Inr by auto
  qed
qed

lemma visited_expand [simp]: "visited (expand fsys query current s) = visited s"
  by (simp add: expand_def Let_def split: sum.splits)

lemma dir_reads_expand:
  "dir_reads (expand fsys query current s) \<le> Suc (dir_reads s)"
  by (simp add: expand_def Let_def split: sum.splits)

lemma expand_appends:
  "\<exists>rs qs. results (expand fsys query current s) = results s @ rs \<and>
           queue (expand fsys query current s) = queue s @ qs \<and>
           (\<forall>p\<in>set rs \<union> set qs. \<exists>n. p = child current n)"
proof (cases "\<exists>items. is_dir fsys current = Inr True \<and> iterdir fsys current = Inr items")
  case True
  then obtain items where d: "is_dir fsys current = Inr True" and it: "iterdir fsys current = Inr items"
    by blast
  let ?s1 = "s\<lparr>dir_reads := Suc (dir_reads s)\<rparr>"
  have e: "expand fsys query current s = scan_children fsys query items ?s1"
    using d it by (simp add: expand_def Let_def)
  obtain rs qs where "results (scan_children fsys query items ?s1) = results ?s1 @ rs"
    "queue (scan_children fsys query items ?s1) = queue ?s1 @ qs"
    "set rs \<subseteq> set items" "set qs \<subseteq> set items"
    using scan_children_appends by blast
  moreover have "\<forall>p\<in>set items. \<exists>n. p = child current n"
    using it by (auto simp: iterdir_def split: sum.splits)
  ultimately have "results (expand fsys query current s) = results s @ rs \<and>
           queue (expand fsys query current s) = queue s @ qs \<and>
           (\<forall>p\<in>set rs \<union> set qs. \<exists>n. p = child current n)"
    unfolding e by auto
  then show ?thesis by blast
next
  case False
  then have "results (expand fsys query current s) = results s @ [] \<and>
           queue (expand fsys query current s) = queue s @ [] \<and>
           (\<forall>p\<in>set [] \<union> set []. \<exists>n. p = child current n)"
    by (auto simp: expand_def Let_def split: sum.splits)
  then show ?thesis by blast
qed

lemma expand_results:
  assumes "r \<in> set (results (expand fsys query current s))"
  shows "r \<in> set (results s) \<or> listed_match fsys query r"
proof (cases "\<exists>ns. is_dir fsys current = Inr True \<and> listdir fsys current = Inr ns")
  case True
  then obtain ns where d: "is_dir fsys current = Inr True" and l: "listdir fsys current = Inr ns"
    by blast
  have e: "expand fsys query current s =
      scan_children fsys query (map (child current) ns) (s\<lparr>dir_reads := Suc (dir_reads s)\<rparr>)"
    using d l by (simp add: expand_def iterdir_def Let_def)
  have "r \<in> set (results (s\<lparr>dir_reads := Suc (dir_reads s)\<rparr>)) \<or>
        (r \<in> set (map (child current) ns) \<and> contains query (lower (name r)))"
    using assms unfolding e by (rule scan_children_results)
  then show ?thesis
  proof
    assume "r \<in> set (results (s\<lparr>dir_reads := Suc (dir_reads s)\<rparr>))"
    then show ?thesis by simp
  next
    assume a: "r \<in> set (map (child current) ns) \<and> contains query (lower (name r))"
    then obtain n where n: "n \<in> set ns" "r = child current n" by auto
    then have "name r = n" by (simp add: name_def child_def)
    then have "listed_match fsys query r"
      unfolding listed_match_def using l n a by blast
    then show ?thesis ..
  qed
next
  case False
  then have "results (expand fsys query current s) = results s"
    by (auto simp: expand_def iterdir_def Let_def split: sum.splits)
  then show ?thesis using assms by simp
qed

lemma expand_queued:
  assumes "p \<in> set (queue (expand fsys query current s))"
  shows "p \<in> set (queue s) \<or>
         (\<exists>ns n. listdir fsys current = Inr ns \<and> n \<in> set ns \<and> p = child current n \<and>
            is_dir fsys p = Inr True)"
proof (cases "\<exists>ns. is_dir fsys current = Inr True \<and> listdir fsys current = Inr ns")
  case True
  then obtain ns where d: "is_dir fsys current = Inr True" and l: "listdir fsys current = Inr ns"
    by blast
  have e: "expand fsys query current s =
      scan_children fsys query (map (child current) ns) (s\<lparr>dir_reads := Suc (dir_reads s)\<rparr>)"
    using d l by (simp add: expand_def iterdir_def Let_def)
  have "p \<in> set (queue (s\<lparr>dir_reads := Suc (dir_reads s)\<rparr>)) \<or>
        (p \<in> set (map (child current) ns) \<and> is_dir fsys p = Inr True)"
    using assms unfolding e by (rule scan_children_queued)
  then show ?thesis
  proof
    assume "p \<in> set (queue (s\<lparr>dir_reads := Suc (dir_reads s)\<rparr>))"
    then show ?thesis by simp
  next
    assume a: "p \<in> set (map (child current) ns) \<and> is_dir fsys p = Inr True"
    then obtain n where "n \<in> set ns" "p = child current n" by auto
    then show ?thesis using l a by blast
  qed
next
  case False
  then have "queue (expand fsys query current s) = queue s"
    by (auto simp: expand_def iterdir_def Let_def split: sum.splits)
  then show ?thesis using assms by simp
qed

subsection \<open>Results are listed matches\<close>

lemma bfs_while_results:
  "\<forall>r\<in>set (results s). listed_match fsys query r \<Longrightarrow>
   \<forall>r\<in>set (results (bfs_while fsys query max_results max_dirs s)). listed_match fsys query r"
proof (induction fsys query max_results max_dirs s rule: bfs_while.induct)
  case (1 fsys query max_results max_dirs s)
  show ?case
  proof (cases "queue s \<noteq> [] \<and> int (length (results s)) < max_results \<and> fcard (visited s) < max_dirs")
    case False
    then have "bfs_while fsys query max_results max_dirs s = s"
      by (subst bfs_while.simps) auto
    then show ?thesis using 1(3) by simp
  next
    case True
    then obtain current rest where q: "queue s = current # rest" by (cases "queue s") auto
    show ?thesis
    proof (cases "current |\<in>| visited s")
      case v: True
      have e: "bfs_while fsys query max_results max_dirs s =
               bfs_while fsys query max_results max_dirs (s\<lparr>queue := rest\<rparr>)"
        using True q v by (subst bfs_while.simps) simp
      have "\<forall>r\<in>set (results (s\<lparr>queue := rest\<rparr>)). listed_match fsys query r"
        using 1(3) by simp
      from 1(1)[OF True q v this] show ?thesis unfolding e .
    next
      case v: False
      let ?s2 = "s\<lparr>queue := rest, visited := finsert current (visited s)\<rparr>"
      let ?s' = "expand fsys query current ?s2"
      have e: "bfs_while fsys query max_results max_dirs s =
               bfs_while fsys query max_results max_dirs ?s'"
        using True q v by (subst bfs_while.simps) simp
      have "\<forall>r\<in>set (results ?s'). listed_match fsys query r"
      proof
        fix r assume "r \<in> set (results ?s')"
        then have "r \<in> set (results ?s2) \<or> listed_match fsys query r" by (rule expand_results)
        then show "listed_match fsys query r" using 1(3) by auto
      qed
      from 1(2)[OF True q v this] show ?thesis unfolding e .
    qed
  qed
qed

lemma bfs_search_listed_match:
  "r \<in> set (bfs_search fsys root query max_results) \<Longrightarrow> listed_match fsys query r"
  using bfs_while_results[of "\<lparr>queue = [root], results = [], visited = {||}, dir_reads = 0\<rparr>"
      fsys query max_results 300]
  by (simp add: bfs_search_def bfs_run_def)

subsection \<open>The search covers the tree\<close>

text \<open>
  In a readable tree the loop keeps the frontier closed: the subdirectories of a
  visited directory are visited or queued. So a search that ends with an empty queue
  has visited every directory of the tree, and every path it visits is a directory of
  the tree.
\<close>

lemma tree_dirs_is_dir: "p \<in> tree_dirs fsys root \<Longrightarrow> is_dir fsys p = Inr True"
  by (induction rule: tree_dirs.induct) auto

lemma expand_queue_readable:
  assumes t: "current \<in> tree_dirs fsys root" and r: "readable_tree fsys root"
    and l: "listdir fsys current = Inr ns" and n: "n \<in> set ns"
    and d: "is_dir fsys (child current n) = Inr True"
  shows "child current n \<in> set (queue (expand fsys query current s))"
proof -
  have dir: "is_dir fsys current = Inr True" using t by (rule tree_dirs_is_dir)
  have it: "iterdir fsys current = Inr (map (child current) ns)" using l by (simp add: iterdir_def)
  have ok: "\<forall>i\<in>set (map (child current) ns). \<exists>d. is_dir fsys i = Inr d"
    using r t l unfolding readable_tree_def by fastforce
  have "queue (expand fsys query current s) =
          queue s @ filter (\<lambda>i. is_dir fsys i = Inr True) (map (child current) ns)"
    using dir it scan_children_queue[OF ok] by (simp add: expand_def Let_def)
  then show ?thesis using n d by simp
qed

lemma frontier_closed_skip:
  assumes "frontier_closed fsys root s" "queue s = current # rest" "current |\<in>| visited s"
  shows "frontier_closed fsys root (s\<lparr>queue := rest\<rparr>)"
  using assms unfolding frontier_closed_def by auto

lemma frontier_closed_expand:
  assumes inv: "frontier_closed fsys root s" and q: "queue s = current # rest"
    and r: "readable_tree fsys root"
  shows "frontier_closed fsys root
           (expand fsys query current (s\<lparr>queue := rest, visited := finsert current (visited s)\<rparr>))"
proof -
  let ?s2 = "s\<lparr>queue := rest, visited := finsert current (visited s)\<rparr>"
  let ?s' = "expand fsys query current ?s2"
  obtain rs qs where q': "queue ?s' = queue ?s2 @ qs"
    using expand_appends by blast
  have v': "visited ?s' = finsert current (visited s)" by simp
  have old: "x |\<in>| visited ?s' \<or> x \<in> set (queue ?s')"
    if "x |\<in>| visited s \<or> x \<in> set (queue s)" for x
    using that q unfolding v' q' by auto
  have root: "root |\<in>| visited ?s' \<or> root \<in> set (queue ?s')"
    using inv old unfolding frontier_closed_def by blast
  have kids: "child p n |\<in>| visited ?s' \<or> child p n \<in> set (queue ?s')"
    if p: "p |\<in>| visited ?s'" and t: "p \<in> tree_dirs fsys root" and l: "listdir fsys p = Inr ns"
      and n: "n \<in> set ns" and d: "is_dir fsys (child p n) = Inr True" for p ns n
  proof (cases "p = current")
    case True
    then show ?thesis using expand_queue_readable[OF _ r, of current ns n query ?s2] t l n d by simp
  next
    case False
    then have "p |\<in>| visited s" using p unfolding v' by simp
    then have "child p n |\<in>| visited s \<or> child p n \<in> set (queue s)"
      using inv t l n d unfolding frontier_closed_def by blast
    then show ?thesis by (rule old)
  qed
  show ?thesis unfolding frontier_closed_def using root kids by blast
qed

lemma frontier_closed_bfs_while:
  "frontier_closed fsys root s \<Longrightarrow> readable_tree fsys root \<Longrightarrow>
   frontier_closed fsys root (bfs_while fsys query max_results max_dirs s)"
proof (induction fsys query max_results max_dirs s rule: bfs_while.induct)
  case (1 fsys query max_results max_dirs s)
  show ?case
  proof (cases "queue s \<noteq> [] \<and> int (length (results s)) < max_results \<and> fcard (visited s) < max_dirs")
    case False
    then have "bfs_while fsys query max_results max_dirs s = s"
      by (subst bfs_while.simps) auto
    then show ?thesis using 1(3) by simp
  next
    case True
    then obtain current rest where q: "queue s = current # rest" by (cases "queue s") auto
    show ?thesis
    proof (cases "current |\<in>| visited s")
      case v: True
      have e: "bfs_while fsys query max_results max_dirs s =
               bfs_while fsys query max_results max_dirs (s\<lparr>queue := rest\<rparr>)"
        using True q v by (subst bfs_while.simps) simp
      have "frontier_closed fsys root (s\<lparr>queue := rest\<rparr>)"
        using 1(3) q v by (rule frontier_closed_skip)
      from 1(1)[OF True q v this 1(4)] show ?thesis unfolding e .
    next
      case v: False
      let ?s' = "expand fsys query current (s\<lparr>queue := rest, visited := finsert current (visited s)\<rparr>)"
      have e: "bfs_while fsys query max_results max_dirs s =
               bfs_while fsys query max_results max_dirs ?s'"
        using True q v by (subst bfs_while.simps) simp
      have "frontier_closed fsys root ?s'"
        using 1(3) q 1(4) by (rule frontier_closed_expand)
      from 1(2)[OF True q v this 1(4)] show ?thesis unfolding e .
    qed
  qed
qed

lemma frontier_closed_empty_queue:
  assumes "frontier_closed fsys root s" "queue s = []"
  shows "tree_dirs fsys root \<subseteq> fset (visited s)"
proof
  fix p assume "p \<in> tree_dirs fsys root"
  then show "p \<in> fset (visited s)"
  proof (induction rule: tree_dirs.induct)
    case root
    then show ?case using assms unfolding frontier_closed_def by auto
  next
    case (step p ns n)
    then show ?case using assms unfolding frontier_closed_def by fastforce
  qed
qed

lemma in_tree_bfs_while:
  "\<forall>p\<in>set (queue s) \<union> fset (visited s). p \<in> tree_dirs fsys root \<Longrightarrow>
   fset (visited (bfs_while fsys query max_results max_dirs s)) \<subseteq> tree_dirs fsys root"
proof (induction fsys query max_results max_dirs s rule: bfs_while.induct)
  case (1 fsys query max_results max_dirs s)
  show ?case
  proof (cases "queue s \<noteq> [] \<and> int (length (results s)) < max_results \<and> fcard (visited s) < max_dirs")
    case False
    then have "bfs_while fsys query max_results max_dirs s = s"
      by (subst bfs_while.simps) auto
    then show ?thesis using 1(3) by auto
  next
    case True
    then obtain current rest where q: "queue s = current # rest" by (cases "queue s") auto
    have cur: "current \<in> tree_dirs fsys root" using 1(3) q by simp
    show ?thesis
    proof (cases "current |\<in>| visited s")
      case v: True
      have e: "bfs_while fsys query max_results max_dirs s =
               bfs_while fsys query max_results max_dirs (s\<lparr>queue := rest\<rparr>)"
        using True q v by (subst bfs_while.simps) simp
      have "\<forall>p\<in>set (queue (s\<lparr>queue := rest\<rparr>)) \<union> fset (visited (s\<lparr>queue := rest\<rparr>)).
              p \<in> tree_dirs fsys root"
        using 1(3) q by simp
      from 1(1)[OF True q v this] show ?thesis unfolding e .
    next
      case v: False
      let ?s2 = "s\<lparr>queue := rest, visited := finsert current (visited s)\<rparr>"
      let ?s' = "expand fsys query current ?s2"
      have e: "bfs_while fsys query max_results max_dirs s =
               bfs_while fsys query max_results max_dirs ?s'"
        using True q v by (subst bfs_while.simps) simp
      have "\<forall>p\<in>set (queue ?s') \<union> fset (visited ?s'). p \<in> tree_dirs fsys root"
      proof
        fix p assume "p \<in> set (queue ?s') \<union> fset (visited ?s')"
        then consider "p \<in> set (queue ?s')" | "p = current" | "p |\<in>| visited s" by auto
        then show "p \<in> tree_dirs fsys root"
        proof cases
          case 1
          then have "p \<in> set (queue ?s2) \<or>
             (\<exists>ns n. listdir fsys current = Inr ns \<and> n \<in> set ns \<and> p = child current n \<and>
                is_dir fsys p = Inr True)"
            by (rule expand_queued)
          then show ?thesis
          proof
            assume "p \<in> set (queue ?s2)"
            then show ?thesis using "1.prems" q by simp
          next
            assume "\<exists>ns n. listdir fsys current = Inr ns \<and> n \<in> set ns \<and> p = child current n \<and>
                is_dir fsys p = Inr True"
            then obtain ns n where "listdir fsys current = Inr ns" "n \<in> set ns"
              "p = child current n" "is_dir fsys (child current n) = Inr True" by blast
            then show ?thesis using tree_dirs.step[OF cur] by blast
          qed
        next
          case 2
          then show ?thesis using cur by simp
        next
          case 3
          then show ?thesis using "1.prems" by simp
        qed
      qed
      from 1(2)[OF True q v this] show ?thesis unfolding e .
    qed
  qed
qed

lemma bfs_run_in_tree:
  assumes "is_dir fsys root = Inr True"
  shows "fset (visited (bfs_run fsys root query max_results)) \<subseteq> tree_dirs fsys root"
proof -
  have "root \<in> tree_dirs fsys root" using assms by (rule tree_dirs.root)
  then have "\<forall>p\<in>set (queue \<lparr>queue = [root], results = [], visited = {||}, dir_reads = 0\<rparr>) \<union>
      fset (visited \<lparr>queue = [root], results = [], visited = {||}, dir_reads = 0\<rparr>).
      p \<in> tree_dirs fsys root" by simp
  then show ?thesis unfolding bfs_run_def by (rule in_tree_bfs_while)
qed

subsection \<open>The example trees\<close>

lemma bfs_run_tree:
  "bfs_run fs_tree [''targets''] ''target'' 150 =
     \<lparr>queue = [], results = [[''targets'', ''a'', ''target.txt'']],
      visited = {|[''targets'', ''b''], [''targets'', ''a''], [''targets'']|}, dir_reads = 3\<rparr>"
  by (simp add: bfs_run_def bfs_while.simps expand_def iterdir_def fs_tree_def child_def
      name_def lower_def lower_char_def fcard_finsert_if fcard_fempty Let_def)

lemma distinct_pairs:
  "distinct A \<Longrightarrow> distinct B \<Longrightarrow> distinct [[a, b]. a \<leftarrow> A, b \<leftarrow> B]"
  by (induction A) (auto simp: distinct_map inj_on_def)

lemma distinct_wide_names: "distinct wide_names"
proof -
  have "distinct big_names" unfolding big_names_def by (rule distinct_pairs) simp_all
  then show ?thesis by (simp add: wide_names_def distinct_map inj_on_def)
qed

lemma length_wide_names: "length wide_names = 300"
  by (simp add: wide_names_def length_big_names)

lemma wide_child_is_dir:
  "n \<in> set wide_names \<Longrightarrow> is_dir fs_wide (child [''w''] n) = Inr True"
  by (simp add: fs_wide_def child_def)

lemma wide_child_matches:
  assumes "n \<in> set wide_names"
  shows "contains ''dir'' (lower (name (child [''w''] n)))"
proof -
  obtain m where "n = ''dir_'' @ m" using assms by (auto simp: wide_names_def)
  then have "lower (name (child [''w''] n)) = ''dir_'' @ lower m"
    by (simp add: name_def child_def lower_def lower_char_def)
  then show ?thesis by simp
qed

lemma bfs_run_wide:
  "bfs_run fs_wide [''w''] ''dir'' 150 =
     \<lparr>queue = map (child [''w'']) wide_names, results = map (child [''w'']) wide_names,
      visited = {|[''w'']|}, dir_reads = 1\<rparr>"
proof -
  let ?items = "map (child [''w'']) wide_names"
  let ?s1 = "\<lparr>queue = ?items, results = ?items, visited = {|[''w'']|}, dir_reads = 1\<rparr>"
  have all: "\<forall>i\<in>set ?items. contains ''dir'' (lower (name i)) \<and> is_dir fs_wide i = Inr True"
    using wide_child_is_dir wide_child_matches by auto
  have it: "iterdir fs_wide [''w''] = Inr ?items" by (simp add: iterdir_def fs_wide_def)
  have d: "is_dir fs_wide [''w''] = Inr True" by (simp add: fs_wide_def)
  have e: "expand fs_wide ''dir'' [''w'']
             \<lparr>queue = [], results = [], visited = {|[''w'']|}, dir_reads = 0\<rparr> = ?s1"
    by (simp add: expand_def d it scan_children_all[OF all])
  have step1: "bfs_while fs_wide ''dir'' 150 300
                 \<lparr>queue = [[''w'']], results = [], visited = {||}, dir_reads = 0\<rparr> =
               bfs_while fs_wide ''dir'' 150 300 ?s1"
    by (subst bfs_while.simps) (simp add: fcard_fempty e)
  have step2: "bfs_while fs_wide ''dir'' 150 300 ?s1 = ?s1"
    by (subst bfs_while.simps) (simp add: length_wide_names)
  show ?thesis unfolding bfs_run_def step1 step2 ..
qed

lemma contains_set: "contains q s \<Longrightarrow> set q \<subseteq> set s"
proof (induction s)
  case Nil
  then show ?case by simp
next
  case (Cons c s)
  then show ?case using set_mono_prefix[of q "c # s"] by auto
qed

lemma lower_char_z: "lower_char c = CHR ''z'' \<Longrightarrow> c = CHR ''z'' \<or> c = CHR ''Z''"
  by (simp add: lower_char_def split: if_splits)

lemma wide_name_no_z:
  assumes "n \<in> set wide_names"
  shows "\<not> contains ''zz'' (lower n)"
proof
  assume "contains ''zz'' (lower n)"
  then have "set ''zz'' \<subseteq> set (lower n)" by (rule contains_set)
  then have "CHR ''z'' \<in> lower_char ` set n" by (simp add: lower_def)
  then obtain c where c: "c \<in> set n" "lower_char c = CHR ''z''" by auto
  then have z: "c = CHR ''z'' \<or> c = CHR ''Z''" using lower_char_z by blast
  obtain m where m: "n = ''dir_'' @ m" "m \<in> set big_names"
    using assms by (auto simp: wide_names_def)
  obtain a b where ab: "m = [a, b]" "a \<in> set ''abcdefghijklmno''"
      "b \<in> set ''abcdefghijklmnopqrst''"
    using m(2) in_pairs unfolding big_names_def by blast
  have nz: "CHR ''z'' \<notin> set ''abcdefghijklmnopqrst''" "CHR ''Z'' \<notin> set ''abcdefghijklmnopqrst''"
    "CHR ''z'' \<notin> set ''abcdefghijklmno''" "CHR ''Z'' \<notin> set ''abcdefghijklmno''"
    "CHR ''z'' \<notin> set ''dir_''" "CHR ''Z'' \<notin> set ''dir_''"
    by simp_all
  have "c \<in> set ''dir_'' \<or> c = a \<or> c = b" using c(1) unfolding m(1) ab(1) by auto
  then show False using z nz ab(2,3) by metis
qed

lemma listdir_wide_names:
  "listdir fs_wide cur = Inr ns \<Longrightarrow> n \<in> set ns \<Longrightarrow> n \<in> set wide_names"
  by (auto simp: fs_wide_def split: if_splits)

lemma bfs_search_wide_zz: "bfs_search fs_wide [''w''] ''zz'' 150 = []"
proof -
  have "r \<notin> set (bfs_search fs_wide [''w''] ''zz'' 150)" for r
  proof
    assume "r \<in> set (bfs_search fs_wide [''w''] ''zz'' 150)"
    then have "listed_match fs_wide ''zz'' r" by (rule bfs_search_listed_match)
    then obtain cur ns n where "listdir fs_wide cur = Inr ns" "n \<in> set ns"
      "contains ''zz'' (lower n)"
      unfolding listed_match_def by blast
    then show False using listdir_wide_names wide_name_no_z by blast
  qed
  then show ?thesis by (meson last_in_set)
qed

lemma wide_is_dir_iff:
  "is_dir fs_wide p = Inr True \<longleftrightarrow> p = [''w''] \<or> (\<exists>n\<in>set wide_names. p = child [''w''] n)"
proof -
  have "length p = 2 \<and> hd p = ''w'' \<and> last p \<in> set wide_names \<longleftrightarrow>
        (\<exists>n\<in>set wide_names. p = [''w'', n])"
  proof (cases p)
    case Nil
    then show ?thesis by simp
  next
    case (Cons a p')
    then show ?thesis by (cases p'; cases "tl p'") auto
  qed
  then show ?thesis by (simp add: fs_wide_def child_def)
qed

lemma tree_dirs_wide:
  "tree_dirs fs_wide [''w''] = insert [''w''] (child [''w''] ` set wide_names)"
proof
  show "tree_dirs fs_wide [''w''] \<subseteq> insert [''w''] (child [''w''] ` set wide_names)"
    using tree_dirs_is_dir wide_is_dir_iff by blast
next
  have r: "[''w''] \<in> tree_dirs fs_wide [''w'']"
    by (rule tree_dirs.root) (simp add: wide_is_dir_iff)
  have l: "listdir fs_wide [''w''] = Inr wide_names" by (simp add: fs_wide_def)
  have "child [''w''] n \<in> tree_dirs fs_wide [''w'']" if "n \<in> set wide_names" for n
    using r l that by (rule tree_dirs.step) (use that wide_is_dir_iff in blast)
  then show "insert [''w''] (child [''w''] ` set wide_names) \<subseteq> tree_dirs fs_wide [''w'']"
    using r by auto
qed

lemma card_tree_dirs_wide: "card (tree_dirs fs_wide [''w'']) = 301"
proof -
  have inj: "inj_on (child [''w'']) (set wide_names)" by (simp add: inj_on_def child_def)
  have "card (child [''w''] ` set wide_names) = 300"
    using inj distinct_wide_names length_wide_names by (simp add: card_image distinct_card)
  moreover have "[''w''] \<notin> child [''w''] ` set wide_names" by (auto simp: child_def)
  ultimately show ?thesis unfolding tree_dirs_wide by simp
qed

lemma readable_tree_wide: "readable_tree fs_wide [''w'']"
  unfolding readable_tree_def
proof
  fix p assume "p \<in> tree_dirs fs_wide [''w'']"
  then have "is_dir fs_wide p = Inr True" by (rule tree_dirs_is_dir)
  then have "\<exists>ns. listdir fs_wide p = Inr ns" by (auto simp: fs_wide_def)
  moreover have "\<exists>d. is_dir fs_wide x = Inr d" for x by (simp add: fs_wide_def)
  ultimately show "\<exists>ns. listdir fs_wide p = Inr ns \<and>
      (\<forall>n\<in>set ns. \<exists>d. is_dir fs_wide (child p n) = Inr d)" by blast
qed

subsection \<open>The result limit\<close>

text \<open>
  Claim C1. The program does not keep the result count at \<open>max_results\<close>: the limit
  is tested only between directories, and the loop over the children of one directory
  appends every match. On the wide tree, whose root has 300 children that all match
  \<open>dir\<close>, the search with the default limit of 150 returns 300 results.
\<close>

theorem bfs_search_exceeds_max_results:
  "length (bfs_search fs_wide [''w''] ''dir'' 150) = 300"
  by (simp add: bfs_search_def bfs_run_wide length_wide_names)

subsection \<open>The bound on directories\<close>

lemma bfs_while_bounds:
  "fcard (visited s) \<le> max_dirs \<Longrightarrow>
   fcard (visited (bfs_while fsys query max_results max_dirs s)) \<le> max_dirs \<and>
   dir_reads (bfs_while fsys query max_results max_dirs s) + fcard (visited s)
     \<le> dir_reads s + fcard (visited (bfs_while fsys query max_results max_dirs s)) \<and>
   (queue (bfs_while fsys query max_results max_dirs s) = [] \<or>
    max_results \<le> int (length (results (bfs_while fsys query max_results max_dirs s))) \<or>
    fcard (visited (bfs_while fsys query max_results max_dirs s)) = max_dirs)"
proof (induction fsys query max_results max_dirs s rule: bfs_while.induct)
  case (1 fsys query max_results max_dirs s)
  show ?case
  proof (cases "queue s \<noteq> [] \<and> int (length (results s)) < max_results \<and> fcard (visited s) < max_dirs")
    case False
    then have "bfs_while fsys query max_results max_dirs s = s"
      by (subst bfs_while.simps) auto
    then show ?thesis using False 1(3) by auto
  next
    case True
    then obtain current rest where q: "queue s = current # rest" by (cases "queue s") auto
    show ?thesis
    proof (cases "current |\<in>| visited s")
      case v: True
      have e: "bfs_while fsys query max_results max_dirs s =
               bfs_while fsys query max_results max_dirs (s\<lparr>queue := rest\<rparr>)"
        using True q v by (subst bfs_while.simps) simp
      have "fcard (visited (s\<lparr>queue := rest\<rparr>)) \<le> max_dirs" using 1(3) by simp
      from 1(1)[OF True q v this] show ?thesis unfolding e by simp
    next
      case v: False
      let ?s' = "expand fsys query current (s\<lparr>queue := rest, visited := finsert current (visited s)\<rparr>)"
      have e: "bfs_while fsys query max_results max_dirs s =
               bfs_while fsys query max_results max_dirs ?s'"
        using True q v by (subst bfs_while.simps) simp
      have fc: "fcard (visited ?s') = Suc (fcard (visited s))"
        using v by (simp add: fcard_finsert_disjoint)
      then have le: "fcard (visited ?s') \<le> max_dirs" using True by simp
      have dr: "dir_reads ?s' \<le> Suc (dir_reads s)"
        using dir_reads_expand[of fsys query current "s\<lparr>queue := rest, visited := finsert current (visited s)\<rparr>"]
        by simp
      from 1(2)[OF True q v le] show ?thesis unfolding e using fc dr by auto
    qed
  qed
qed

lemma bfs_run_exit:
  "dir_reads (bfs_run fsys root query max_results) \<le> fcard (visited (bfs_run fsys root query max_results)) \<and>
   fcard (visited (bfs_run fsys root query max_results)) \<le> 300 \<and>
   (queue (bfs_run fsys root query max_results) = [] \<or>
    max_results \<le> int (length (results (bfs_run fsys root query max_results))) \<or>
    fcard (visited (bfs_run fsys root query max_results)) = 300)"
  using bfs_while_bounds[of "\<lparr>queue = [root], results = [], visited = {||}, dir_reads = 0\<rparr>"
      300 fsys query max_results]
  by (simp add: bfs_run_def fcard_fempty)

lemma bfs_run_visits_all:
  assumes r: "readable_tree fsys root"
    and big: "infinite (tree_dirs fsys root) \<or> 300 < card (tree_dirs fsys root)"
    and lim: "int (length (results (bfs_run fsys root query max_results))) < max_results"
  shows "fcard (visited (bfs_run fsys root query max_results)) = 300"
proof -
  let ?s0 = "\<lparr>queue = [root], results = [], visited = {||}, dir_reads = 0\<rparr>"
  let ?f = "bfs_run fsys root query max_results"
  have "root \<in> set (queue ?s0)" by simp
  moreover have "\<not> p |\<in>| visited ?s0" for p by simp
  ultimately have "frontier_closed fsys root ?s0" unfolding frontier_closed_def by blast
  then have fc: "frontier_closed fsys root ?f"
    unfolding bfs_run_def using r by (rule frontier_closed_bfs_while)
  have b: "fcard (visited ?f) \<le> 300"
    using bfs_run_exit[of fsys root query max_results] by (elim conjE)
  have x: "queue ?f = [] \<or> max_results \<le> int (length (results ?f)) \<or> fcard (visited ?f) = 300"
    using bfs_run_exit[of fsys root query max_results] by (elim conjE)
  have ne: "queue ?f \<noteq> []"
  proof
    assume "queue ?f = []"
    with fc have sub: "tree_dirs fsys root \<subseteq> fset (visited ?f)"
      by (rule frontier_closed_empty_queue)
    have fv: "finite (fset (visited ?f))" by simp
    have fin: "finite (tree_dirs fsys root)" using sub fv by (rule finite_subset)
    have "card (tree_dirs fsys root) \<le> card (fset (visited ?f))"
      using fv sub by (rule card_mono)
    also have "card (fset (visited ?f)) = fcard (visited ?f)" by (simp add: fcard.rep_eq)
    finally have "card (tree_dirs fsys root) \<le> 300" using b by linarith
    with big fin show False by linarith
  qed
  from x show ?thesis
  proof (elim disjE)
    assume "queue ?f = []" with ne show ?thesis by contradiction
  next
    assume "max_results \<le> int (length (results ?f))" with lim show ?thesis by linarith
  next
    assume "fcard (visited ?f) = 300" then show ?thesis .
  qed
qed

text \<open>
  Claim C7, amended. The search always returns (\<open>bfs_while\<close> is total), after at
  most 300 directory reads, at most one for each visited path; when it returns, the
  queue is empty, or the results have reached \<open>max_results\<close>, or exactly 300 paths
  have been visited. When the root is a directory, every visited path is a directory
  of the tree. And when the tree is readable and has more than 300 directories, the
  search visits exactly 300 of them, unless the result limit ends it first: if it
  returns fewer than \<open>max_results\<close> results, it has visited exactly 300.
\<close>

theorem bfs_run_bounds:
  "dir_reads (bfs_run fsys root query max_results) \<le> fcard (visited (bfs_run fsys root query max_results)) \<and>
   fcard (visited (bfs_run fsys root query max_results)) \<le> 300 \<and>
   (queue (bfs_run fsys root query max_results) = [] \<or>
    max_results \<le> int (length (results (bfs_run fsys root query max_results))) \<or>
    fcard (visited (bfs_run fsys root query max_results)) = 300) \<and>
   (is_dir fsys root = Inr True \<longrightarrow>
      fset (visited (bfs_run fsys root query max_results)) \<subseteq> tree_dirs fsys root) \<and>
   (readable_tree fsys root \<longrightarrow>
    infinite (tree_dirs fsys root) \<or> 300 < card (tree_dirs fsys root) \<longrightarrow>
    int (length (bfs_search fsys root query max_results)) < max_results \<longrightarrow>
      fcard (visited (bfs_run fsys root query max_results)) = 300)"
proof (intro conjI impI)
  show "dir_reads (bfs_run fsys root query max_results) \<le> fcard (visited (bfs_run fsys root query max_results))"
    and "fcard (visited (bfs_run fsys root query max_results)) \<le> 300"
    and "queue (bfs_run fsys root query max_results) = [] \<or>
         max_results \<le> int (length (results (bfs_run fsys root query max_results))) \<or>
         fcard (visited (bfs_run fsys root query max_results)) = 300"
    using bfs_run_exit[of fsys root query max_results] by blast+
next
  assume "is_dir fsys root = Inr True"
  then show "fset (visited (bfs_run fsys root query max_results)) \<subseteq> tree_dirs fsys root"
    by (rule bfs_run_in_tree)
next
  assume "readable_tree fsys root"
    and "infinite (tree_dirs fsys root) \<or> 300 < card (tree_dirs fsys root)"
    and "int (length (bfs_search fsys root query max_results)) < max_results"
  then show "fcard (visited (bfs_run fsys root query max_results)) = 300"
    unfolding bfs_search_def by (rule bfs_run_visits_all)
qed

theorem bfs_run_bounds_witness:
  "is_dir fs_wide [''w''] = Inr True \<and> readable_tree fs_wide [''w''] \<and>
   card (tree_dirs fs_wide [''w'']) = 301 \<and>
   bfs_search fs_wide [''w''] ''zz'' 150 = [] \<and>
   fcard (visited (bfs_run fs_wide [''w''] ''zz'' 150)) = 300 \<and>
   fset (visited (bfs_run fs_wide [''w''] ''zz'' 150)) \<subseteq> tree_dirs fs_wide [''w''] \<and>
   dir_reads (bfs_run fs_wide [''w''] ''zz'' 150) \<le> 300"
proof -
  have d: "is_dir fs_wide [''w''] = Inr True" by (simp add: wide_is_dir_iff)
  have big: "infinite (tree_dirs fs_wide [''w'']) \<or> 300 < card (tree_dirs fs_wide [''w''])"
    by (simp add: card_tree_dirs_wide)
  have lim: "int (length (bfs_search fs_wide [''w''] ''zz'' 150)) < 150"
    by (simp add: bfs_search_wide_zz)
  from bfs_run_bounds[of fs_wide "[''w'']" "''zz''" 150] d readable_tree_wide big lim
  have "fcard (visited (bfs_run fs_wide [''w''] ''zz'' 150)) = 300"
    and "fset (visited (bfs_run fs_wide [''w''] ''zz'' 150)) \<subseteq> tree_dirs fs_wide [''w'']"
    and "dir_reads (bfs_run fs_wide [''w''] ''zz'' 150) \<le> fcard (visited (bfs_run fs_wide [''w''] ''zz'' 150))"
    by blast+
  then show ?thesis
    using d readable_tree_wide card_tree_dirs_wide bfs_search_wide_zz by simp
qed

text \<open>
  Claim C7 as stated fails: a tree with more than 300 directories does not make the
  search visit 300 of them. The wide tree has 301 directories; the search for \<open>dir\<close>
  reads the root, has its results, and stops after visiting one directory.
\<close>

theorem bfs_visits_counterexample:
  "is_dir fs_wide [''w''] = Inr True \<and>
   length wide_names = 300 \<and> distinct wide_names \<and>
   map (is_dir fs_wide) (map (child [''w'']) wide_names) = replicate 300 (Inr True) \<and>
   fcard (visited (bfs_run fs_wide [''w''] ''dir'' 150)) = 1 \<and>
   dir_reads (bfs_run fs_wide [''w''] ''dir'' 150) = 1"
proof -
  have "map (is_dir fs_wide) (map (child [''w'']) wide_names) = replicate (length wide_names) (Inr True)"
    using wide_child_is_dir by (simp add: map_replicate_const[symmetric] del: map_replicate_const cong: map_cong)
  then have m: "map (is_dir fs_wide) (map (child [''w'']) wide_names) = replicate 300 (Inr True)"
    by (simp only: length_wide_names)
  have r: "is_dir fs_wide [''w''] = Inr True" by (simp add: fs_wide_def)
  have v: "fcard (visited (bfs_run fs_wide [''w''] ''dir'' 150)) = 1"
    by (simp add: bfs_run_wide fcard_finsert_if fcard_fempty)
  have d: "dir_reads (bfs_run fs_wide [''w''] ''dir'' 150) = 1"
    by (simp add: bfs_run_wide)
  show ?thesis using r length_wide_names distinct_wide_names m v d by (intro conjI)
qed

subsection \<open>The root is not a result\<close>

lemma below_root_expand:
  assumes q: "\<forall>p\<in>set rest. prefix root p" and c: "prefix root current"
    and r: "\<forall>p\<in>set (results s). strict_prefix root p"
    and s': "queue s = rest"
  shows "below_root root (expand fsys query current s)"
proof -
  obtain rs qs where r': "results (expand fsys query current s) = results s @ rs"
    and q': "queue (expand fsys query current s) = queue s @ qs"
    and ch: "\<forall>p\<in>set rs \<union> set qs. \<exists>n. p = child current n"
    using expand_appends by blast
  have new: "strict_prefix root p" if "p \<in> set rs \<union> set qs" for p
  proof -
    from ch that have "\<exists>n. p = child current n" by (rule bspec)
    then obtain n where p: "p = current @ [n]" unfolding child_def ..
    obtain zs where "current = root @ zs" using c by (auto simp: prefix_def)
    then have "p = root @ (zs @ [n])" using p by simp
    then show ?thesis unfolding strict_prefix_def prefix_def by auto
  qed
  have "\<forall>p\<in>set (queue s @ qs). prefix root p"
    using q s' new by (auto simp: strict_prefix_def)
  moreover have "\<forall>p\<in>set (results s @ rs). strict_prefix root p"
    using r new by auto
  ultimately show ?thesis unfolding below_root_def r' q' by blast
qed

lemma below_root_bfs_while:
  "below_root root s \<Longrightarrow> below_root root (bfs_while fsys query max_results max_dirs s)"
proof (induction fsys query max_results max_dirs s rule: bfs_while.induct)
  case (1 fsys query max_results max_dirs s)
  show ?case
  proof (cases "queue s \<noteq> [] \<and> int (length (results s)) < max_results \<and> fcard (visited s) < max_dirs")
    case False
    then show ?thesis using 1(3) by (subst bfs_while.simps) auto
  next
    case True
    then obtain current rest where q: "queue s = current # rest" by (cases "queue s") auto
    have s: "s\<lparr>queue := current # rest\<rparr> = s" using q by simp
    show ?thesis
    proof (cases "current |\<in>| visited s")
      case v: True
      have "below_root root (s\<lparr>queue := rest\<rparr>)"
        using 1(3) q by (simp add: below_root_def)
      then have "below_root root (bfs_while fsys query max_results max_dirs (s\<lparr>queue := rest\<rparr>))"
        using 1(1) True q v by blast
      then show ?thesis using True q v by (subst bfs_while.simps) simp
    next
      case v: False
      let ?s' = "expand fsys query current (s\<lparr>queue := rest, visited := finsert current (visited s)\<rparr>)"
      have "below_root root ?s'"
        using 1(3) q by (intro below_root_expand) (simp_all add: below_root_def)
      then have "below_root root (bfs_while fsys query max_results max_dirs ?s')"
        using 1(2) True q v by blast
      then show ?thesis using True q v by (subst bfs_while.simps) simp
    qed
  qed
qed

text \<open>
  Claim C10. The root is never among the results of the search, and every result is
  a strict descendant of the root: its path extends the root's path by at least one
  component. This holds also when the root's own name contains the query.
\<close>

theorem bfs_search_below_root:
  "root \<notin> set (bfs_search fsys root query max_results) \<and>
   (\<forall>p\<in>set (bfs_search fsys root query max_results). strict_prefix root p)"
proof -
  have "below_root root \<lparr>queue = [root], results = [], visited = {||}, dir_reads = 0\<rparr>"
    by (simp add: below_root_def)
  then have "below_root root (bfs_run fsys root query max_results)"
    unfolding bfs_run_def by (rule below_root_bfs_while)
  then have "\<forall>p\<in>set (bfs_search fsys root query max_results). strict_prefix root p"
    by (simp add: below_root_def bfs_search_def)
  then show ?thesis by auto
qed

theorem bfs_search_below_root_witness:
  "contains ''target'' (lower (name [''targets''])) \<and>
   bfs_search fs_tree [''targets''] ''target'' 150 = [[''targets'', ''a'', ''target.txt'']] \<and>
   [''targets''] \<notin> set (bfs_search fs_tree [''targets''] ''target'' 150) \<and>
   strict_prefix [''targets''] [''targets'', ''a'', ''target.txt'']"
proof -
  have c: "contains ''target'' (lower (name [''targets'']))"
    by (simp add: name_def lower_def lower_char_def)
  have r: "bfs_search fs_tree [''targets''] ''target'' 150 = [[''targets'', ''a'', ''target.txt'']]"
    by (simp add: bfs_search_def bfs_run_tree)
  show ?thesis
    using bfs_search_below_root[of "[''targets'']" fs_tree "''target''" 150] c r by simp
qed

section \<open>Properties of overlapping searches\<close>

lemma on_input_changed_search:
  "search_active a \<Longrightarrow> 2 \<le> length v \<Longrightarrow>
   on_input_changed fsys a v = a\<lparr>timers := timers a @ [v]\<rparr>"
  by (simp add: on_input_changed_def)

lemma inputs_all_scheduled:
  "search_active a \<Longrightarrow> \<forall>v\<in>set vs. 2 \<le> length v \<Longrightarrow>
   foldl (on_input_changed fsys) a vs = a\<lparr>timers := timers a @ vs\<rparr>"
proof (induction vs arbitrary: a)
  case Nil
  show ?case by simp
next
  case (Cons v vs)
  have s: "on_input_changed fsys a v = a\<lparr>timers := timers a @ [v]\<rparr>"
    using Cons.prems by (simp add: on_input_changed_search)
  have "foldl (on_input_changed fsys) (a\<lparr>timers := timers a @ [v]\<rparr>) vs =
          a\<lparr>timers := timers a @ [v]\<rparr>\<lparr>timers := timers (a\<lparr>timers := timers a @ [v]\<rparr>) @ vs\<rparr>"
    using Cons.prems by (intro Cons.IH) simp_all
  then show ?case by (simp add: s)
qed

lemma timer_fires_active:
  assumes "search_active a" "timers a = q # rest"
  shows "timer_fires fsys a =
           a\<lparr>timers := rest,
             search_panel := show_results (bfs_search fsys (current_path (flist a)) (lower q) 150) q\<rparr>"
  using assms by (simp add: timer_fires_def do_search_def)

lemma run_timers_last:
  assumes "search_active a" "timers a = ts" "ts \<noteq> []"
  shows "search_panel (run_timers fsys (length ts) a) =
           show_results (bfs_search fsys (current_path (flist a)) (lower (last ts)) 150) (last ts)"
  using assms
proof (induction ts arbitrary: a)
  case Nil
  then show ?case by simp
next
  case (Cons q rest)
  let ?a' = "timer_fires fsys a"
  have a': "?a' = a\<lparr>timers := rest,
             search_panel := show_results (bfs_search fsys (current_path (flist a)) (lower q) 150) q\<rparr>"
    using Cons.prems by (simp add: timer_fires_active)
  show ?case
  proof (cases "rest = []")
    case True
    then show ?thesis using a' by simp
  next
    case False
    have "search_active ?a'" "timers ?a' = rest" "flist ?a' = flist a"
      using Cons.prems by (simp_all add: a')
    then show ?thesis using Cons.IH[of ?a'] False by simp
  qed
qed

lemma app_typing_eq:
  "app_typing =
     \<lparr>nav_stack = [], search_active = True, filter_active = False, current_filter = [],
      flist = fl_docs, search_panel = Blank, timers = [''re'', ''rep'']\<rparr>"
  by (simp add: app_typing_def on_input_changed_def action_search_mode_def app_init_def)

lemma bfs_docs_re:
  "bfs_search fs_docs [''docs''] ''re'' 150 = [[''docs'', ''.secret.txt''], [''docs'', ''report.pdf'']]"
  by (simp add: bfs_search_def bfs_run_def bfs_while.simps expand_def iterdir_def fs_docs_def
      child_def name_def lower_def lower_char_def fcard_finsert_if fcard_fempty Let_def)

lemma bfs_docs_rep:
  "bfs_search fs_docs [''docs''] ''rep'' 150 = [[''docs'', ''report.pdf'']]"
  by (simp add: bfs_search_def bfs_run_def bfs_while.simps expand_def iterdir_def fs_docs_def
      child_def name_def lower_def lower_char_def fcard_finsert_if fcard_fempty Let_def)

lemma lower_re: "lower ''re'' = ''re''" "lower ''rep'' = ''rep''"
  by (simp_all add: lower_def lower_char_def)

text \<open>
  Claim C2, amended. The program has no generation counter and cancels no timer.
  Every input of at least two characters made in search mode starts its own timer
  and leaves the pending ones in place, so a sequence of such inputs leaves one
  pending search for each. When a timer fires in search mode, the results of its
  query are published, whatever newer queries are pending: the results of an older
  query are published after a newer input. When it fires outside search mode,
  nothing is published. As the timers fire in the order they were started, once all
  pending timers have fired in search mode the panel shows the results of the most
  recent query.
\<close>

theorem search_publication:
  "(search_active a \<longrightarrow> 2 \<le> length v \<longrightarrow>
      on_input_changed fsys a v = a\<lparr>timers := timers a @ [v]\<rparr>) \<and>
   (search_active a \<longrightarrow> (\<forall>u\<in>set vs. 2 \<le> length u) \<longrightarrow>
      foldl (on_input_changed fsys) a vs = a\<lparr>timers := timers a @ vs\<rparr>) \<and>
   (search_active a \<longrightarrow> timers a = q # rest \<longrightarrow>
      search_panel (timer_fires fsys a) =
        show_results (bfs_search fsys (current_path (flist a)) (lower q) 150) q \<and>
      timers (timer_fires fsys a) = rest) \<and>
   (search_active a \<longrightarrow> 2 \<le> length v \<longrightarrow> timers a = q # rest \<longrightarrow>
      search_panel (timer_fires fsys (on_input_changed fsys a v)) =
        show_results (bfs_search fsys (current_path (flist a)) (lower q) 150) q \<and>
      timers (timer_fires fsys (on_input_changed fsys a v)) = rest @ [v]) \<and>
   (search_active a \<longrightarrow> timers a \<noteq> [] \<longrightarrow>
      search_panel (run_timers fsys (length (timers a)) a) =
        show_results (bfs_search fsys (current_path (flist a)) (lower (last (timers a))) 150)
          (last (timers a))) \<and>
   (search_active a \<longrightarrow> 2 \<le> length v \<longrightarrow>
      search_panel (run_timers fsys (Suc (length (timers a))) (on_input_changed fsys a v)) =
        show_results (bfs_search fsys (current_path (flist a)) (lower v) 150) v) \<and>
   (\<not> search_active a \<longrightarrow> search_panel (timer_fires fsys a) = search_panel a)"
proof (intro conjI impI)
  assume "search_active a" "2 \<le> length v"
  then show "on_input_changed fsys a v = a\<lparr>timers := timers a @ [v]\<rparr>"
    by (rule on_input_changed_search)
next
  assume "search_active a" "\<forall>u\<in>set vs. 2 \<le> length u"
  then show "foldl (on_input_changed fsys) a vs = a\<lparr>timers := timers a @ vs\<rparr>"
    by (rule inputs_all_scheduled)
next
  assume "search_active a" "timers a = q # rest"
  then show "search_panel (timer_fires fsys a) =
        show_results (bfs_search fsys (current_path (flist a)) (lower q) 150) q"
    and "timers (timer_fires fsys a) = rest"
    by (simp_all add: timer_fires_active)
next
  assume a: "search_active a" "2 \<le> length v" "timers a = q # rest"
  let ?b = "on_input_changed fsys a v"
  have b: "?b = a\<lparr>timers := timers a @ [v]\<rparr>" using a by (simp add: on_input_changed_search)
  have "search_active ?b" "timers ?b = q # (rest @ [v])" "flist ?b = flist a"
    using a by (simp_all add: b)
  then show "search_panel (timer_fires fsys ?b) =
        show_results (bfs_search fsys (current_path (flist a)) (lower q) 150) q"
    and "timers (timer_fires fsys ?b) = rest @ [v]"
    using timer_fires_active[of ?b q "rest @ [v]" fsys] by simp_all
next
  assume "search_active a" "timers a \<noteq> []"
  then show "search_panel (run_timers fsys (length (timers a)) a) =
        show_results (bfs_search fsys (current_path (flist a)) (lower (last (timers a))) 150)
          (last (timers a))"
    using run_timers_last by blast
next
  assume a: "search_active a" "2 \<le> length v"
  let ?b = "on_input_changed fsys a v"
  have b: "?b = a\<lparr>timers := timers a @ [v]\<rparr>" using a by (simp add: on_input_changed_search)
  have p: "search_active ?b" "timers ?b = timers a @ [v]" "timers a @ [v] \<noteq> []"
    and f: "flist ?b = flist a"
    using a by (simp_all add: b)
  have "search_panel (run_timers fsys (length (timers a @ [v])) ?b) =
      show_results (bfs_search fsys (current_path (flist ?b)) (lower (last (timers a @ [v]))) 150)
        (last (timers a @ [v]))"
    using p by (rule run_timers_last)
  then show "search_panel (run_timers fsys (Suc (length (timers a))) ?b) =
        show_results (bfs_search fsys (current_path (flist a)) (lower v) 150) v"
    unfolding f by simp
next
  assume "\<not> search_active a"
  then show "search_panel (timer_fires fsys a) = search_panel a"
    by (simp add: timer_fires_def do_search_def split: list.splits)
qed

theorem search_publication_witness:
  "search_active (action_search_mode (app_init fl_docs)) \<and>
   foldl (on_input_changed fs_docs) (action_search_mode (app_init fl_docs)) [''re'', ''rep''] =
     app_typing \<and>
   timers app_typing = [''re'', ''rep''] \<and>
   search_panel (timer_fires fs_docs app_typing) =
     Found 2 [[''docs'', ''.secret.txt''], [''docs'', ''report.pdf'']] \<and>
   timers (timer_fires fs_docs app_typing) = [''rep''] \<and>
   search_panel (run_timers fs_docs 2 app_typing) = Found 1 [[''docs'', ''report.pdf'']] \<and>
   \<not> search_active (action_normal_mode fs_docs app_typing) \<and>
   search_panel (timer_fires fs_docs (action_normal_mode fs_docs app_typing)) = Blank"
proof -
  let ?a0 = "action_search_mode (app_init fl_docs)"
  let ?a1 = "on_input_changed fs_docs ?a0 ''re''"
  have a0: "search_active ?a0" "timers ?a0 = []" "flist ?a0 = fl_docs"
    by (simp_all add: action_search_mode_def app_init_def)
  have len: "\<forall>u\<in>set [''re'', ''rep'']. 2 \<le> length u" "2 \<le> length ''re''" "2 \<le> length ''rep''"
    by simp_all
  have a1: "?a1 = ?a0\<lparr>timers := [''re'']\<rparr>"
    using search_publication[of ?a0 "''re''" fs_docs "[]" "[]" "[]"] a0 len by simp
  have cp: "current_path fl_docs = [''docs'']" by (simp add: fl_docs_eq)
  have s1: "search_active ?a1" "timers ?a1 = [''re'']" "current_path (flist ?a1) = [''docs'']"
    unfolding a1 by (simp_all add: a0 cp)
  have typing: "app_typing = on_input_changed fs_docs ?a1 ''rep''" by (simp add: app_typing_def)
  have f: "foldl (on_input_changed fs_docs) ?a0 [''re'', ''rep''] = app_typing"
    by (simp add: app_typing_def)
  have t: "timers app_typing = [''re'', ''rep'']" by (simp add: app_typing_eq)
  have n: "\<not> search_active (action_normal_mode fs_docs app_typing)"
    and b: "search_panel (action_normal_mode fs_docs app_typing) = Blank"
    by (simp_all add: action_normal_mode_def app_typing_eq)
  note sp = search_publication[of ?a1 "''rep''" fs_docs "[]" "''re''" "[]"]
  have "search_panel (timer_fires fs_docs (on_input_changed fs_docs ?a1 ''rep'')) =
          show_results (bfs_search fs_docs (current_path (flist ?a1)) (lower ''re'') 150) ''re''"
    and "timers (timer_fires fs_docs (on_input_changed fs_docs ?a1 ''rep'')) = [] @ [''rep'']"
    and "search_panel (run_timers fs_docs (Suc (length (timers ?a1)))
            (on_input_changed fs_docs ?a1 ''rep'')) =
          show_results (bfs_search fs_docs (current_path (flist ?a1)) (lower ''rep'') 150) ''rep''"
    using sp s1(1,2) len(3) by blast+
  then have "search_panel (timer_fires fs_docs app_typing) =
          show_results (bfs_search fs_docs [''docs''] (lower ''re'') 150) ''re''"
    and "timers (timer_fires fs_docs app_typing) = [''rep'']"
    and "search_panel (run_timers fs_docs (Suc (Suc 0)) app_typing) =
          show_results (bfs_search fs_docs [''docs''] (lower ''rep'') 150) ''rep''"
    unfolding typing[symmetric] s1(2) s1(3) by simp_all
  moreover have "search_panel (timer_fires fs_docs (action_normal_mode fs_docs app_typing)) = Blank"
    using search_publication[of "action_normal_mode fs_docs app_typing" "[]" fs_docs "[]" "[]" "[]"]
      n b by metis
  ultimately show ?thesis using a0(1) f t n
    by (simp add: lower_re bfs_docs_re bfs_docs_rep show_results_def numeral_2_eq_2)
qed

text \<open>
  Claim C2 as stated fails: the user types \<open>re\<close> and then \<open>rep\<close> before the first
  timer fires. When it fires, the newer query \<open>rep\<close> is pending, and the panel
  nevertheless shows the two results of the older query \<open>re\<close>.
\<close>

theorem stale_search_counterexample:
  "timers app_typing = [''re'', ''rep''] \<and>
   search_panel (timer_fires fs_docs app_typing) =
     Found 2 [[''docs'', ''.secret.txt''], [''docs'', ''report.pdf'']] \<and>
   timers (timer_fires fs_docs app_typing) = [''rep''] \<and>
   bfs_search fs_docs [''docs''] (lower ''rep'') 150 = [[''docs'', ''report.pdf'']]"
  by (simp add: app_typing_eq timer_fires_def do_search_def fl_docs_eq bfs_docs_re bfs_docs_rep
      lower_re show_results_def)

end
